theory Spec2Isabelle
  imports
    Main
    "HOL-Library.Char_ord"
    "HOL-Library.List_Lexorder"
    "HOL-Library.Multiset"
    "HOL-Library.AList"
begin

section \<open>The manifest generator of the service-worker configuration package\<close>

text \<open>
  The development embeds \<^verbatim>\<open>esm2020/config/src/generator.mjs\<close>. JavaScript strings
  are modelled as \<^typ>\<open>string\<close> (lists of characters); the default comparison of
  \<^verbatim>\<open>Array.prototype.sort\<close> on strings (by code unit, a proper prefix first) is the
  lexicographic order on character lists, so \<^verbatim>\<open>xs.sort()\<close> is \<^term>\<open>sort xs\<close>.
\<close>

subsection \<open>String helpers of the JavaScript runtime\<close>

text \<open>\<^verbatim>\<open>s.startsWith(c)\<close> and \<^verbatim>\<open>s.endsWith(c)\<close> for a one-character \<^verbatim>\<open>c\<close>.\<close>

definition startsWith :: "string \<Rightarrow> char \<Rightarrow> bool" where
  "startsWith s c = (case s of [] \<Rightarrow> False | x # _ \<Rightarrow> x = c)"

definition endsWith :: "string \<Rightarrow> char \<Rightarrow> bool" where
  "endsWith s c = (case rev s of [] \<Rightarrow> False | x # _ \<Rightarrow> x = c)"

text \<open>\<^verbatim>\<open>s.substr(1)\<close>: everything after the first character, the empty string for
  the empty string.\<close>

definition substr1 :: "string \<Rightarrow> string" where
  "substr1 s = drop 1 s"

text \<open>\<^verbatim>\<open>s.indexOf(sub) === -1\<close> is \<open>\<not> hasSubstring sub s\<close>: whether \<open>sub\<close> occurs in
  \<open>s\<close> as a contiguous substring.\<close>

fun hasSubstring :: "string \<Rightarrow> string \<Rightarrow> bool" where
  "hasSubstring sub [] = (sub = [])"
| "hasSubstring sub (c # s) = (take (length sub) (c # s) = sub \<or> hasSubstring sub s)"

subsection \<open>joinUrls\<close>

definition joinUrls :: "string \<Rightarrow> string \<Rightarrow> string" where
  "joinUrls a b =
     (if endsWith a CHR ''/'' \<and> startsWith b CHR ''/'' then a @ substr1 b
      else if \<not> endsWith a CHR ''/'' \<and> \<not> startsWith b CHR ''/'' then a @ ''/'' @ b
      else a @ b)"

subsection \<open>Compiled patterns and list matching\<close>

text \<open>
  A compiled pattern is the object \<^verbatim>\<open>{positive, regex}\<close>. The regular expression is
  kept as its source text; the parameter \<open>T\<close> of the functions below stands for the
  runtime's \<^verbatim>\<open>test\<close> of the regular expression with that source text.
\<close>

record pattern =
  positive :: bool
  regex :: string

definition matches :: "(string \<Rightarrow> string \<Rightarrow> bool) \<Rightarrow> string \<Rightarrow> pattern list \<Rightarrow> bool" where
  "matches T file patterns =
     foldl (\<lambda>isMatch pattern.
              if positive pattern then isMatch \<or> T (regex pattern) file
              else isMatch \<and> \<not> T (regex pattern) file)
           False patterns"

text \<open>
  The glob compiler \<^verbatim>\<open>globToRegex(glob, literalQuestionMark)\<close> lives in
  \<^verbatim>\<open>./glob\<close>, which is imported by the generator; it is the parameter \<open>G\<close>. An
  omitted second argument is \<open>False\<close>. The object that \<^verbatim>\<open>globListToMatcher\<close> builds
  for one glob, with the source text of its regular expression:
\<close>

definition globPattern :: "(string \<Rightarrow> bool \<Rightarrow> string) \<Rightarrow> string \<Rightarrow> pattern" where
  "globPattern G pattern =
     (if startsWith pattern CHR ''!''
      then \<lparr>positive = False, regex = ''^'' @ G (substr1 pattern) False @ ''$''\<rparr>
      else \<lparr>positive = True, regex = ''^'' @ G pattern False @ ''$''\<rparr>)"

text \<open>The list-matching rule in the words of the specification: an explicit left
  fold with an accumulator, started at \<open>False\<close>.\<close>

fun matches_spec_from :: "(string \<Rightarrow> string \<Rightarrow> bool) \<Rightarrow> string \<Rightarrow> bool \<Rightarrow> pattern list \<Rightarrow> bool" where
  "matches_spec_from T candidate result [] = result"
| "matches_spec_from T candidate result (p # ps) =
     matches_spec_from T candidate
       (if positive p then result \<or> T (regex p) candidate
        else result \<and> \<not> T (regex p) candidate) ps"

definition matches_spec :: "(string \<Rightarrow> string \<Rightarrow> bool) \<Rightarrow> string \<Rightarrow> pattern list \<Rightarrow> bool" where
  "matches_spec T candidate ps = matches_spec_from T candidate False ps"

subsection \<open>urlToRegex\<close>

text \<open>\<^verbatim>\<open>baseHref.replace(/^\.(?=\/)/, '')\<close>: a leading dot is removed when a slash
  follows it; the slash stays.\<close>

fun stripLeadingDot :: "string \<Rightarrow> string" where
  "stripLeadingDot (c # d # rest) =
     (if c = CHR ''.'' \<and> d = CHR ''/'' then d # rest else c # d # rest)"
| "stripLeadingDot s = s"

definition urlToRegex :: "(string \<Rightarrow> bool \<Rightarrow> string) \<Rightarrow> string \<Rightarrow> string \<Rightarrow> bool \<Rightarrow> string" where
  "urlToRegex G url baseHref literalQuestionMark =
     (if \<not> startsWith url CHR ''/'' \<and> \<not> hasSubstring ''://'' url
      then G (joinUrls (stripLeadingDot baseHref) url) literalQuestionMark
      else G url literalQuestionMark)"

subsection \<open>Configuration, file system and manifest\<close>

text \<open>
  The input configuration (the interface \<^verbatim>\<open>Config\<close>). An optional property is an
  \<^typ>\<open>'a option\<close>, \<open>None\<close> being \<^verbatim>\<open>undefined\<close>. Record fields are global
  names, hence the prefixes on the input side; the emitted objects keep the property
  names of the source. The retired \<^verbatim>\<open>versionedFiles\<close> property is a list of globs
  like \<^verbatim>\<open>files\<close>; an array, even an empty one, is truthy.

  The asset groups are objects, and the generator keys a \<^verbatim>\<open>Map\<close> by them: the array
  \<^verbatim>\<open>assetGroups\<close> is a list of references and \<open>cfgObjects\<close> is the store that holds
  the object of each reference. One object may be listed more than once.
\<close>

type_synonym ref = nat

record resources =
  files :: "string list option"
  resUrls :: "string list option"
  versionedFiles :: "string list option"

record queryOptionsIn =
  ignoreSearchIn :: "bool option"

record assetGroupIn =
  agName :: string
  agInstallMode :: "string option"
  agUpdateMode :: "string option"
  resources :: resources
  agCacheQueryOptions :: "queryOptionsIn option"

record cacheConfig =
  strategyIn :: "string option"
  maxSizeIn :: int
  maxAgeIn :: string
  timeoutIn :: "string option"

record dataGroupIn =
  dgName :: string
  dgUrls :: "string list"
  cacheConfig :: cacheConfig
  dgVersion :: "int option"
  dgCacheQueryOptions :: "queryOptionsIn option"

record 'a config =
  cfgAppData :: 'a
  cfgIndex :: string
  cfgAssetGroups :: "ref list option"
  cfgObjects :: "ref \<Rightarrow> assetGroupIn"
  cfgDataGroups :: "dataGroupIn list option"
  cfgNavigationUrls :: "string list option"
  cfgNavigationRequestStrategy :: "string option"

text \<open>
  Failures. \<open>GeneratorError\<close> is the \<^verbatim>\<open>throw new Error(message)\<close> of the generator
  itself; \<open>CollaboratorError\<close> is a rejection of \<^verbatim>\<open>fs.list\<close> or \<^verbatim>\<open>fs.hash\<close>, or
  an exception of \<^verbatim>\<open>parseDurationToMs\<close>, with whatever reason the collaborator gave;
  \<open>RegExpSyntaxError\<close> is the \<^verbatim>\<open>SyntaxError\<close> of \<^verbatim>\<open>new RegExp(source)\<close> for a
  source text that is not a regular expression.
\<close>

datatype error = GeneratorError string | CollaboratorError string | RegExpSyntaxError string

text \<open>The file system handed to the constructor: \<open>fsList\<close> is the outcome of
  \<^verbatim>\<open>fs.list('/')\<close>, \<open>fsHash\<close> the outcome of \<^verbatim>\<open>fs.hash(file)\<close>.\<close>

record filesystem =
  fsList :: "error + string list"
  fsHash :: "string \<Rightarrow> error + string"

record generator =
  fs :: filesystem
  baseHref :: string

record queryOptions =
  ignoreVary :: bool
  ignoreSearch :: "bool option"

record assetGroup =
  name :: string
  installMode :: string
  updateMode :: string
  cacheQueryOptions :: queryOptions
  urls :: "string list"
  patterns :: "string list"

text \<open>\<^verbatim>\<open>timeoutMs\<close> is \<^verbatim>\<open>timeout && parseDurationToMs(timeout)\<close>: the falsy
  \<^verbatim>\<open>timeout\<close> itself (\<^verbatim>\<open>undefined\<close> or the empty string), or the parsed number.\<close>

datatype timeoutValue = TimeoutUndefined | TimeoutEmptyString | TimeoutNumber int

record dataGroup =
  dName :: string
  dPatterns :: "string list"
  strategy :: string
  maxSize :: int
  maxAge :: int
  timeoutMs :: timeoutValue
  dCacheQueryOptions :: queryOptions
  version :: int

text \<open>
  A plain JavaScript object with string values is an association list in insertion
  order with distinct keys; \<^verbatim>\<open>obj[k] = v\<close> is \<^term>\<open>AList.update k v obj\<close> (the value
  is replaced in place when the key exists, the entry is appended otherwise) and
  \<^verbatim>\<open>Object.keys(obj)\<close> is \<^term>\<open>map fst obj\<close>. (The runtime enumerates keys that are
  canonical array indices first; every key of the hash table is a result of
  \<^const>\<open>joinUrls\<close> and contains a slash.)
\<close>

type_synonym jsObject = "(string \<times> string) list"

record 'a manifest =
  configVersion :: int
  timestamp :: int
  appData :: 'a
  index :: string
  assetGroups :: "assetGroup list"
  dataGroups :: "dataGroup list"
  hashTable :: jsObject
  navigationUrls :: "pattern list"
  navigationRequestStrategy :: string

subsection \<open>Small helpers\<close>

text \<open>\<^verbatim>\<open>x || d\<close> on an optional string: \<^verbatim>\<open>undefined\<close> and the empty string are
  falsy. \<^verbatim>\<open>x ?? d\<close> replaces \<^verbatim>\<open>undefined\<close> only.\<close>

definition orDefault :: "string option \<Rightarrow> string \<Rightarrow> string" where
  "orDefault x d = (case x of None \<Rightarrow> d | Some s \<Rightarrow> if s = [] then d else s)"

definition nullishDefault :: "string option \<Rightarrow> string \<Rightarrow> string" where
  "nullishDefault x d = (case x of None \<Rightarrow> d | Some s \<Rightarrow> s)"

text \<open>\<^verbatim>\<open>xs || []\<close> on an optional array.\<close>

definition orEmpty :: "'b list option \<Rightarrow> 'b list" where
  "orEmpty xs = (case xs of None \<Rightarrow> [] | Some ys \<Rightarrow> ys)"

definition buildCacheQueryOptions :: "queryOptionsIn option \<Rightarrow> queryOptions" where
  "buildCacheQueryOptions inOptions =
     \<lparr>ignoreVary = True,
      ignoreSearch = (case inOptions of None \<Rightarrow> None | Some opts \<Rightarrow> ignoreSearchIn opts)\<rparr>"

definition withOrderedKeys :: "jsObject \<Rightarrow> jsObject" where
  "withOrderedKeys unorderedObj =
     foldl (\<lambda>orderedObj key.
              case map_of unorderedObj key of
                Some v \<Rightarrow> AList.update key v orderedObj
              | None \<Rightarrow> orderedObj)
           [] (sort (map fst unorderedObj))"

definition DEFAULT_NAVIGATION_URLS :: "string list" where
  "DEFAULT_NAVIGATION_URLS = [''/**'', ''!/**/*.*'', ''!/**/*__*'', ''!/**/*__*/**'']"

definition processNavigationUrls ::
  "(string \<Rightarrow> bool \<Rightarrow> string) \<Rightarrow> string \<Rightarrow> string list option \<Rightarrow> pattern list" where
  "processNavigationUrls G base urlsArg =
     map (\<lambda>url.
            let pos = \<not> startsWith url CHR ''!'';
                url' = (if pos then url else substr1 url)
            in \<lparr>positive = pos, regex = ''^'' @ urlToRegex G url' base False @ ''$''\<rparr>)
         (case urlsArg of None \<Rightarrow> DEFAULT_NAVIGATION_URLS | Some us \<Rightarrow> us)"

subsection \<open>processAssetGroups\<close>

definition versionedFilesMessage :: "string \<Rightarrow> string" where
  "versionedFilesMessage groupName =
     ''Asset-group '' @ [CHR 0x27] @ groupName @ [CHR 0x27] @ '' in '' @ [CHR 0x27] @
     ''ngsw-config.json'' @ [CHR 0x27] @ '' uses the '' @ [CHR 0x27] @ ''versionedFiles'' @
     [CHR 0x27] @ '' option, which is no longer supported. Use '' @ [CHR 0x27] @ ''files'' @
     [CHR 0x27] @ '' instead.''"

text \<open>\<^verbatim>\<open>xs.map(f)\<close> for an \<open>f\<close> that may throw: all results in the order of \<open>xs\<close>,
  or the first exception.\<close>

fun mapResult :: "('b \<Rightarrow> error + 'c) \<Rightarrow> 'b list \<Rightarrow> error + 'c list" where
  "mapResult f [] = Inr []"
| "mapResult f (x # xs) =
     (case f x of
        Inl e \<Rightarrow> Inl e
      | Inr y \<Rightarrow> (case mapResult f xs of Inl e \<Rightarrow> Inl e | Inr ys \<Rightarrow> Inr (y # ys)))"

text \<open>
  \<^verbatim>\<open>await Promise.all(xs.map(f))\<close> for an \<open>f\<close> that may reject: all results in the
  order of \<open>xs\<close> when no promise rejects, and otherwise the rejection that settles
  first. Which one that is depends on timing, outside the program: the parameter
  \<open>first\<close> picks it among the rejections.
\<close>

definition promiseAll :: "nat \<Rightarrow> ('b \<Rightarrow> error + 'c) \<Rightarrow> 'b list \<Rightarrow> error + 'c list" where
  "promiseAll first f xs =
     (let outcomes = map f xs;
          rejections = concat (map (\<lambda>r. case r of Inl e \<Rightarrow> [e] | Inr y \<Rightarrow> []) outcomes)
      in if rejections = []
         then Inr (concat (map (\<lambda>r. case r of Inl e \<Rightarrow> [] | Inr y \<Rightarrow> [y]) outcomes))
         else Inl (rejections ! (first mod length rejections)))"

text \<open>
  \<^verbatim>\<open>new RegExp(source)\<close> throws a \<^verbatim>\<open>SyntaxError\<close> when the source text is not a
  regular expression: \<open>V source\<close> says that the constructor returns. The object it
  returns is represented by its source text, \<open>T\<close> being its \<^verbatim>\<open>test\<close>.
\<close>

definition newRegExp :: "(string \<Rightarrow> bool) \<Rightarrow> pattern \<Rightarrow> error + pattern" where
  "newRegExp V p = (if V (regex p) then Inr p else Inl (RegExpSyntaxError (regex p)))"

definition globListToMatcher ::
  "(string \<Rightarrow> bool \<Rightarrow> string) \<Rightarrow> (string \<Rightarrow> bool) \<Rightarrow> (string \<Rightarrow> string \<Rightarrow> bool) \<Rightarrow> string list \<Rightarrow>
   error + (string \<Rightarrow> bool)" where
  "globListToMatcher G V T globs =
     (case mapResult (\<lambda>pattern. newRegExp V (globPattern G pattern)) globs of
        Inl e \<Rightarrow> Inl e
      | Inr compiled \<Rightarrow> Inr (\<lambda>file. matches T file compiled))"

text \<open>
  The \<^verbatim>\<open>for\<close> loop over the asset groups, threading the set \<^verbatim>\<open>seenMap\<close> and the
  map \<^verbatim>\<open>filesPerGroup\<close>. The map is keyed by the group objects and enumerates in the
  order of first insertion: it is the list of its entries, and
  \<^verbatim>\<open>filesPerGroup.set(group, matchedFiles)\<close> is \<^term>\<open>AList.update\<close>, which replaces
  the value of an object that is already a key and appends an entry otherwise.
\<close>

fun assignFiles ::
  "(string \<Rightarrow> bool \<Rightarrow> string) \<Rightarrow> (string \<Rightarrow> bool) \<Rightarrow> (string \<Rightarrow> string \<Rightarrow> bool) \<Rightarrow>
   (ref \<Rightarrow> assetGroupIn) \<Rightarrow> string list \<Rightarrow>
   string set \<times> (ref \<times> string list) list \<Rightarrow> ref list \<Rightarrow>
   error + string set \<times> (ref \<times> string list) list" where
  "assignFiles G V T objects allFiles (seenMap, filesPerGroup) [] = Inr (seenMap, filesPerGroup)"
| "assignFiles G V T objects allFiles (seenMap, filesPerGroup) (r # rest) =
     (let grp = objects r in
      if versionedFiles (resources grp) \<noteq> None
      then Inl (GeneratorError (versionedFilesMessage (agName grp)))
      else
        (case globListToMatcher G V T (orEmpty (files (resources grp))) of
           Inl e \<Rightarrow> Inl e
         | Inr fileMatcher \<Rightarrow>
             let matchedFiles =
               sort (filter (\<lambda>file. file \<notin> seenMap) (filter fileMatcher allFiles))
             in assignFiles G V T objects allFiles
                  (seenMap \<union> set matchedFiles, AList.update r matchedFiles filesPerGroup) rest))"

definition emitAssetGroup ::
  "(string \<Rightarrow> bool \<Rightarrow> string) \<Rightarrow> string \<Rightarrow> (ref \<Rightarrow> assetGroupIn) \<Rightarrow> ref \<times> string list \<Rightarrow> assetGroup" where
  "emitAssetGroup G base objects entry =
     (case entry of (r, matchedFiles) \<Rightarrow>
        let grp = objects r in
        \<lparr>name = agName grp,
         installMode = orDefault (agInstallMode grp) ''prefetch'',
         updateMode = orDefault (agUpdateMode grp) (orDefault (agInstallMode grp) ''prefetch''),
         cacheQueryOptions = buildCacheQueryOptions (agCacheQueryOptions grp),
         urls = map (\<lambda>url. joinUrls base url) matchedFiles,
         patterns = map (\<lambda>url. urlToRegex G url base True) (orEmpty (resUrls (resources grp)))\<rparr>)"

text \<open>\<^verbatim>\<open>allMatchedFiles.forEach((file, idx) => { hashTable[joinUrls(baseHref, file)] =
  allMatchedHashes[idx]; })\<close> over the files paired with their hashes.\<close>

definition storeHashes :: "string \<Rightarrow> jsObject \<Rightarrow> (string \<times> string) list \<Rightarrow> jsObject" where
  "storeHashes base table entries =
     foldl (\<lambda>table (file, h). AList.update (joinUrls base file) h table) table entries"

text \<open>The hash table is mutated in place by the source; here it is passed in and
  returned.\<close>

definition processAssetGroups ::
  "nat \<Rightarrow> (string \<Rightarrow> bool \<Rightarrow> string) \<Rightarrow> (string \<Rightarrow> bool) \<Rightarrow> (string \<Rightarrow> string \<Rightarrow> bool) \<Rightarrow>
   generator \<Rightarrow> 'a config \<Rightarrow> jsObject \<Rightarrow> error + assetGroup list \<times> jsObject" where
  "processAssetGroups first G V T this config hashTable0 =
     (case fsList (fs this) of
        Inl e \<Rightarrow> Inl e
      | Inr allFiles \<Rightarrow>
          (case assignFiles G V T (cfgObjects config) allFiles ({}, [])
                  (orEmpty (cfgAssetGroups config)) of
             Inl e \<Rightarrow> Inl e
           | Inr (seenMap, filesPerGroup) \<Rightarrow>
               let allMatchedFiles = sort (concat (map snd filesPerGroup)) in
               (case promiseAll first (fsHash (fs this)) allMatchedFiles of
                  Inl e \<Rightarrow> Inl e
                | Inr allMatchedHashes \<Rightarrow>
                    Inr (map (emitAssetGroup G (baseHref this) (cfgObjects config)) filesPerGroup,
                         storeHashes (baseHref this) hashTable0
                           (zip allMatchedFiles allMatchedHashes)))))"

subsection \<open>processDataGroups and process\<close>

text \<open>\<^verbatim>\<open>parseDurationToMs\<close> lives in \<^verbatim>\<open>./duration\<close>; it is the parameter \<open>P\<close> and
  may throw.\<close>

definition emitDataGroup ::
  "(string \<Rightarrow> bool \<Rightarrow> string) \<Rightarrow> (string \<Rightarrow> error + int) \<Rightarrow> string \<Rightarrow> dataGroupIn \<Rightarrow> error + dataGroup" where
  "emitDataGroup G P base grp =
     (case P (maxAgeIn (cacheConfig grp)) of
        Inl e \<Rightarrow> Inl e
      | Inr age \<Rightarrow>
          (case (case timeoutIn (cacheConfig grp) of
                   None \<Rightarrow> Inr TimeoutUndefined
                 | Some t \<Rightarrow> if t = [] then Inr TimeoutEmptyString
                             else (case P t of Inl e \<Rightarrow> Inl e | Inr ms \<Rightarrow> Inr (TimeoutNumber ms))) of
             Inl e \<Rightarrow> Inl e
           | Inr tmo \<Rightarrow>
               Inr \<lparr>dName = dgName grp,
                    dPatterns = map (\<lambda>url. urlToRegex G url base True) (dgUrls grp),
                    strategy = orDefault (strategyIn (cacheConfig grp)) ''performance'',
                    maxSize = maxSizeIn (cacheConfig grp),
                    maxAge = age,
                    timeoutMs = tmo,
                    dCacheQueryOptions = buildCacheQueryOptions (dgCacheQueryOptions grp),
                    version = (case dgVersion grp of None \<Rightarrow> 1 | Some v \<Rightarrow> v)\<rparr>))"

definition processDataGroups ::
  "(string \<Rightarrow> bool \<Rightarrow> string) \<Rightarrow> (string \<Rightarrow> error + int) \<Rightarrow> generator \<Rightarrow> 'a config \<Rightarrow>
   error + dataGroup list" where
  "processDataGroups G P this config =
     mapResult (emitDataGroup G P (baseHref this)) (orEmpty (cfgDataGroups config))"

text \<open>\<open>now\<close> is the value of \<^verbatim>\<open>Date.now()\<close>.\<close>

definition process ::
  "int \<Rightarrow> nat \<Rightarrow> (string \<Rightarrow> bool \<Rightarrow> string) \<Rightarrow> (string \<Rightarrow> bool) \<Rightarrow> (string \<Rightarrow> string \<Rightarrow> bool) \<Rightarrow>
   (string \<Rightarrow> error + int) \<Rightarrow> generator \<Rightarrow> 'a config \<Rightarrow> error + 'a manifest" where
  "process now first G V T P this config =
     (case processAssetGroups first G V T this config [] of
        Inl e \<Rightarrow> Inl e
      | Inr (groups, unorderedHashTable) \<Rightarrow>
          (case processDataGroups G P this config of
             Inl e \<Rightarrow> Inl e
           | Inr dgs \<Rightarrow>
               Inr \<lparr>configVersion = 1,
                    timestamp = now,
                    appData = cfgAppData config,
                    index = joinUrls (baseHref this) (cfgIndex config),
                    assetGroups = groups,
                    dataGroups = dgs,
                    hashTable = withOrderedKeys unorderedHashTable,
                    navigationUrls = processNavigationUrls G (baseHref this) (cfgNavigationUrls config),
                    navigationRequestStrategy =
                      nullishDefault (cfgNavigationRequestStrategy config) ''performance''\<rparr>))"

subsection \<open>The glob rules of the specification\<close>

text \<open>
  Modelled from the spec: \<^verbatim>\<open>globToRegex\<close> of \<^verbatim>\<open>./glob\<close> and the runtime's regular
  expression test are not part of the sources at hand. Section 4.1 of the specification
  fixes what a compiled glob matches, not the text of the regular expression:
  \<^verbatim>\<open>**\<close> matches any run of characters including \<^verbatim>\<open>/\<close>, \<^verbatim>\<open>*\<close> any run of
  characters other than \<^verbatim>\<open>/\<close>, \<^verbatim>\<open>?\<close> exactly one character (itself only, in
  literal-question-mark mode), any other character itself, and the whole candidate has
  to be matched. \<open>globMatch literalQuestionMark glob candidate\<close> is that relation.
\<close>

fun globMatch :: "bool \<Rightarrow> string \<Rightarrow> string \<Rightarrow> bool" where
  "globMatch q [] s = (s = [])"
| "globMatch q (c # g) s =
     (if c = CHR ''*'' then
        (if startsWith g CHR ''*''
         then globMatch q (tl g) s \<or> (case s of [] \<Rightarrow> False | x # s' \<Rightarrow> globMatch q (c # g) s')
         else globMatch q g s \<or>
              (case s of [] \<Rightarrow> False | x # s' \<Rightarrow> x \<noteq> CHR ''/'' \<and> globMatch q (c # g) s'))
      else if c = CHR ''?'' \<and> \<not> q then (case s of [] \<Rightarrow> False | x # s' \<Rightarrow> globMatch q g s')
      else (case s of [] \<Rightarrow> False | x # s' \<Rightarrow> x = c \<and> globMatch q g s'))"

text \<open>Modelled from the spec: a glob compiler \<open>G\<close> and a regular expression test \<open>T\<close>
  follow the rules of section 4.1 when the anchored expression of a compiled glob
  accepts exactly what \<^const>\<open>globMatch\<close> accepts.\<close>

definition implementsGlobRules ::
  "(string \<Rightarrow> bool \<Rightarrow> string) \<Rightarrow> (string \<Rightarrow> string \<Rightarrow> bool) \<Rightarrow> bool" where
  "implementsGlobRules G T =
     (\<forall>glob q candidate. T (''^'' @ G glob q @ ''$'') candidate = globMatch q glob candidate)"

text \<open>
  Modelled from the spec: one compiler and one test that follow the rules, for use on
  concrete inputs. The source text of a compiled glob is the glob behind a letter for the
  mode, and the test reads an anchored source text by \<^const>\<open>globMatch\<close>.
\<close>

definition specGlobToRegex :: "string \<Rightarrow> bool \<Rightarrow> string" where
  "specGlobToRegex glob literalQuestionMark = (if literalQuestionMark then ''L'' else ''W'') @ glob"

definition specRegexTest :: "string \<Rightarrow> string \<Rightarrow> bool" where
  "specRegexTest source candidate =
     (case source of
        a # m # rest \<Rightarrow>
          a = CHR ''^'' \<and> (m = CHR ''L'' \<or> m = CHR ''W'') \<and> endsWith rest CHR ''$'' \<and>
          globMatch (m = CHR ''L'') (butlast rest) candidate
      | _ \<Rightarrow> False)"

text \<open>Modelled from the spec: in that dialect the constructor accepts the anchored source
  texts with a mode letter, hence every compiled glob (any string is translatable).\<close>

definition specRegExpValid :: "string \<Rightarrow> bool" where
  "specRegExpValid source =
     (case source of
        a # m # rest \<Rightarrow> a = CHR ''^'' \<and> (m = CHR ''L'' \<or> m = CHR ''W'') \<and> endsWith rest CHR ''$''
      | _ \<Rightarrow> False)"

text \<open>The base normalisation of \<^const>\<open>urlToRegex\<close> in the words of the specification:
  a single leading \<^verbatim>\<open>./\<close> is stripped from the base.\<close>

definition stripDotSlash_spec :: "string \<Rightarrow> string" where
  "stripDotSlash_spec base = (if take 2 base = ''./'' then drop 2 base else base)"

subsection \<open>Notions used in the statements and proofs\<close>

text \<open>Whether the file globs of a group match a file (what the \<^verbatim>\<open>fileMatcher\<close> of the
  loop answers), whether all of them compile to regular expressions, and whether a
  group declares the retired option.\<close>

abbreviation groupMatches ::
  "(string \<Rightarrow> bool \<Rightarrow> string) \<Rightarrow> (string \<Rightarrow> string \<Rightarrow> bool) \<Rightarrow> assetGroupIn \<Rightarrow> string \<Rightarrow> bool" where
  "groupMatches G T grp file \<equiv>
     matches T file (map (globPattern G) (orEmpty (files (resources grp))))"

abbreviation groupCompiles ::
  "(string \<Rightarrow> bool \<Rightarrow> string) \<Rightarrow> (string \<Rightarrow> bool) \<Rightarrow> assetGroupIn \<Rightarrow> bool" where
  "groupCompiles G V grp \<equiv>
     (\<forall>glob\<in>set (orEmpty (files (resources grp))). V (regex (globPattern G glob)))"

abbreviation declaresVersionedFiles :: "assetGroupIn \<Rightarrow> bool" where
  "declaresVersionedFiles grp \<equiv> versionedFiles (resources grp) \<noteq> None"

text \<open>The lists of files that the passes of the loop of \<^const>\<open>assignFiles\<close> compute, one
  for each listed group, as a function of the set seen so far; a device of the proofs.\<close>

fun perGroup ::
  "(string \<Rightarrow> bool \<Rightarrow> string) \<Rightarrow> (string \<Rightarrow> string \<Rightarrow> bool) \<Rightarrow> string list \<Rightarrow> string set \<Rightarrow>
   assetGroupIn list \<Rightarrow> string list list" where
  "perGroup G T allFiles seenMap [] = []"
| "perGroup G T allFiles seenMap (grp # rest) =
     (let matchedFiles =
        sort (filter (\<lambda>file. file \<notin> seenMap) (filter (groupMatches G T grp) allFiles))
      in matchedFiles # perGroup G T allFiles (seenMap \<union> set matchedFiles) rest)"

subsection \<open>Example runs\<close>

text \<open>
  A configuration with four asset groups over a snapshot of three files with base
  \<^verbatim>\<open>/\<close>, its manifest, a configuration that lists one group object twice, and two
  configurations with groups that declare \<^verbatim>\<open>versionedFiles\<close>. No data group is
  configured, so the duration parser of the examples is never consulted.
\<close>

definition exampleGroup :: "string \<Rightarrow> string list option \<Rightarrow> string list option \<Rightarrow> assetGroupIn" where
  "exampleGroup n fl vf =
     \<lparr>agName = n, agInstallMode = None, agUpdateMode = None,
      resources = \<lparr>files = fl, resUrls = None, versionedFiles = vf\<rparr>,
      agCacheQueryOptions = None\<rparr>"

text \<open>The store in which reference \<open>r\<close> holds the \<open>r\<close>-th of the given objects.\<close>

definition exampleObjects :: "assetGroupIn list \<Rightarrow> ref \<Rightarrow> assetGroupIn" where
  "exampleObjects gs r = (if r < length gs then gs ! r else exampleGroup [] None None)"

definition exampleConfigOf :: "assetGroupIn list \<Rightarrow> ref list \<Rightarrow> unit config" where
  "exampleConfigOf gs refs =
     \<lparr>cfgAppData = (), cfgIndex = ''/index.html'',
      cfgAssetGroups = Some refs, cfgObjects = exampleObjects gs,
      cfgDataGroups = None, cfgNavigationUrls = Some [],
      cfgNavigationRequestStrategy = None\<rparr>"

definition exampleConfig :: "unit config" where
  "exampleConfig =
     exampleConfigOf
       [exampleGroup ''app'' (Some [''/*.js'']) None,
        exampleGroup ''assets'' (Some [''/**'']) None,
        exampleGroup ''rest'' (Some [''/**'']) None,
        exampleGroup ''none'' None None]
       [0, 1, 2, 3]"

definition exampleAliasedConfig :: "unit config" where
  "exampleAliasedConfig = exampleConfigOf [exampleGroup ''app'' (Some [''/*.js'']) None] [0, 0]"

definition exampleRetiredConfig :: "unit config" where
  "exampleRetiredConfig =
     exampleConfigOf
       [exampleGroup ''app'' (Some [''/*.js'']) None,
        exampleGroup ''legacy'' None (Some [''/**''])]
       [0, 1]"

definition exampleTwoRetiredConfig :: "unit config" where
  "exampleTwoRetiredConfig =
     exampleConfigOf
       [exampleGroup ''old'' None (Some [''/*.js'']),
        exampleGroup ''legacy'' None (Some [''/**''])]
       [0, 1]"

definition exampleHash :: "string \<Rightarrow> error + string" where
  "exampleHash file = Inr (''sha:'' @ file)"

definition exampleGenerator :: "string list \<Rightarrow> generator" where
  "exampleGenerator listing = \<lparr>fs = \<lparr>fsList = Inr listing, fsHash = exampleHash\<rparr>, baseHref = ''/''\<rparr>"

definition exampleDurations :: "string \<Rightarrow> error + int" where
  "exampleDurations s = Inl (CollaboratorError s)"

definition exampleGroupOut :: "string \<Rightarrow> string list \<Rightarrow> assetGroup" where
  "exampleGroupOut n us =
     \<lparr>name = n, installMode = ''prefetch'', updateMode = ''prefetch'',
      cacheQueryOptions = \<lparr>ignoreVary = True, ignoreSearch = None\<rparr>,
      urls = us, patterns = []\<rparr>"

definition exampleManifestOf :: "int \<Rightarrow> assetGroup list \<Rightarrow> jsObject \<Rightarrow> unit manifest" where
  "exampleManifestOf now groups table =
     \<lparr>configVersion = 1, timestamp = now, appData = (), index = ''/index.html'',
      assetGroups = groups, dataGroups = [], hashTable = table,
      navigationUrls = [], navigationRequestStrategy = ''performance''\<rparr>"

definition exampleManifest :: "int \<Rightarrow> unit manifest" where
  "exampleManifest now =
     exampleManifestOf now
       [exampleGroupOut ''app'' [''/main.js'', ''/vendor.js''],
        exampleGroupOut ''assets'' [''/readme.txt''],
        exampleGroupOut ''rest'' [],
        exampleGroupOut ''none'' []]
       [(''/main.js'', ''sha:/main.js''), (''/readme.txt'', ''sha:/readme.txt''),
        (''/vendor.js'', ''sha:/vendor.js'')]"

section \<open>Properties\<close>

subsection \<open>Strings\<close>

lemma startsWith_Cons: "startsWith (x # xs) c = (x = c)"
  by (simp add: startsWith_def)

lemma startsWith_Nil: "startsWith [] c = False"
  by (simp add: startsWith_def)

lemma startsWith_iff: "startsWith s c \<longleftrightarrow> (\<exists>t. s = c # t)"
  by (cases s) (auto simp: startsWith_def)

lemma endsWith_iff: "endsWith s c \<longleftrightarrow> (\<exists>t. s = t @ [c])"
  by (cases s rule: rev_cases) (auto simp: endsWith_def)

lemma endsWith_snoc: "endsWith (xs @ [x]) c = (x = c)"
  by (simp add: endsWith_def)

lemma specRegexTest_globMatch:
  "specRegexTest (''^'' @ specGlobToRegex glob q @ ''$'') candidate = globMatch q glob candidate"
  by (simp add: specRegexTest_def specGlobToRegex_def endsWith_snoc butlast_append)

lemma spec_implementsGlobRules: "implementsGlobRules specGlobToRegex specRegexTest"
  unfolding implementsGlobRules_def using specRegexTest_globMatch by blast

subsection \<open>joinUrls\<close>

text \<open>
  Claim C6 (URL join contract). For all strings \<open>base\<close> and \<open>relative\<close>: when \<open>base\<close>
  ends with a slash and \<open>relative\<close> starts with one, the result is the concatenation
  with one of the two slashes dropped; when neither is the case, a slash is inserted
  between them; otherwise the two are concatenated as they are. In particular the three
  examples of the specification evaluate to \<^verbatim>\<open>/base/x\<close>.
\<close>

theorem joinUrls_contract:
  "(endsWith base CHR ''/'' \<and> startsWith relative CHR ''/'' \<longrightarrow>
      joinUrls base relative = base @ tl relative \<and>
      joinUrls base relative = butlast base @ relative)
   \<and> (\<not> endsWith base CHR ''/'' \<and> \<not> startsWith relative CHR ''/'' \<longrightarrow>
      joinUrls base relative = base @ ''/'' @ relative)
   \<and> (endsWith base CHR ''/'' \<noteq> startsWith relative CHR ''/'' \<longrightarrow>
      joinUrls base relative = base @ relative)
   \<and> joinUrls ''/base/'' ''/x'' = ''/base/x''
   \<and> joinUrls ''/base'' ''x'' = ''/base/x''
   \<and> joinUrls ''/base/'' ''x'' = ''/base/x''"
proof -
  have a: "endsWith base CHR ''/'' \<and> startsWith relative CHR ''/'' \<longrightarrow>
      joinUrls base relative = base @ tl relative \<and>
      joinUrls base relative = butlast base @ relative"
    by (auto simp: joinUrls_def substr1_def startsWith_iff endsWith_iff drop_Suc)
  have b: "\<not> endsWith base CHR ''/'' \<and> \<not> startsWith relative CHR ''/'' \<longrightarrow>
      joinUrls base relative = base @ ''/'' @ relative"
    by (simp add: joinUrls_def)
  have c: "endsWith base CHR ''/'' \<noteq> startsWith relative CHR ''/'' \<longrightarrow>
      joinUrls base relative = base @ relative"
    by (auto simp: joinUrls_def)
  have d: "joinUrls ''/base/'' ''/x'' = ''/base/x''"
    "joinUrls ''/base'' ''x'' = ''/base/x''"
    "joinUrls ''/base/'' ''x'' = ''/base/x''"
    by (simp_all add: joinUrls_def endsWith_def startsWith_def substr1_def)
  from a b c d show ?thesis by blast
qed

theorem joinUrls_contract_witness:
  "endsWith ''/base/'' CHR ''/'' \<and> startsWith ''/x'' CHR ''/'' \<and> joinUrls ''/base/'' ''/x'' = ''/base/'' @ tl ''/x''
   \<and> \<not> endsWith ''/base'' CHR ''/'' \<and> \<not> startsWith ''x'' CHR ''/'' \<and> joinUrls ''/base'' ''x'' = ''/base'' @ ''/'' @ ''x''
   \<and> endsWith ''/base/'' CHR ''/'' \<noteq> startsWith ''x'' CHR ''/'' \<and> joinUrls ''/base/'' ''x'' = ''/base/'' @ ''x''"
  using joinUrls_contract [of "''/base/''" "''/x''"] joinUrls_contract [of "''/base''" "''x''"]
    joinUrls_contract [of "''/base/''" "''x''"]
  by (simp add: endsWith_def startsWith_def)

subsection \<open>List matching\<close>

lemma matches_spec_from_foldl:
  "matches_spec_from T c acc ps =
     foldl (\<lambda>isMatch pattern.
              if positive pattern then isMatch \<or> T (regex pattern) c
              else isMatch \<and> \<not> T (regex pattern) c) acc ps"
  by (induction ps arbitrary: acc) simp_all

lemma matches_spec_from_negative:
  "\<forall>p\<in>set ps. \<not> positive p \<Longrightarrow> matches_spec_from T c False ps = False"
  by (induction ps) simp_all

text \<open>
  Claim C3 (left fold). \<^const>\<open>matches\<close> is the left fold of the specification, started
  at \<open>False\<close>, in which a positive pattern turns the accumulator into "accumulator or
  test" and a negative one into "accumulator and not test". A list without a positive
  pattern matches no candidate, and a single negative pattern never matches.
\<close>

theorem matches_left_fold:
  "matches T candidate ps = matches_spec T candidate ps
   \<and> ((\<forall>p\<in>set ps. \<not> positive p) \<longrightarrow> \<not> matches T candidate ps)
   \<and> (\<not> positive p \<longrightarrow> \<not> matches T candidate [p])"
proof -
  have eq: "matches T candidate qs = matches_spec T candidate qs" for qs
    by (simp add: matches_def matches_spec_def matches_spec_from_foldl)
  have neg: "(\<forall>p\<in>set qs. \<not> positive p) \<longrightarrow> \<not> matches T candidate qs" for qs
    using matches_spec_from_negative [of qs T candidate] by (simp add: eq matches_spec_def)
  have one: "\<not> positive p \<longrightarrow> \<not> matches T candidate [p]"
    by (simp add: matches_def)
  from eq neg one show ?thesis by blast
qed

theorem matches_left_fold_witness:
  "\<not> positive \<lparr>positive = False, regex = ''^W/**$''\<rparr>
   \<and> \<not> matches specRegexTest ''/a'' [\<lparr>positive = False, regex = ''^W/**$''\<rparr>]
   \<and> matches specRegexTest ''/a'' [\<lparr>positive = False, regex = ''^W/**$''\<rparr>]
       = matches_spec specRegexTest ''/a'' [\<lparr>positive = False, regex = ''^W/**$''\<rparr>]"
  using matches_left_fold [of specRegexTest "''/a''" "[\<lparr>positive = False, regex = ''^W/**$''\<rparr>]"
      "\<lparr>positive = False, regex = ''^W/**$''\<rparr>"]
  by auto

subsection \<open>urlToRegex\<close>

lemma hasSubstring_iff: "hasSubstring sub s \<longleftrightarrow> (\<exists>pre post. s = pre @ sub @ post)"
proof (induction s)
  case Nil
  show ?case by auto
next
  case (Cons c s)
  show ?case
  proof
    assume "hasSubstring sub (c # s)"
    then consider "take (length sub) (c # s) = sub" | "hasSubstring sub s" by auto
    then show "\<exists>pre post. c # s = pre @ sub @ post"
    proof cases
      case 1
      then have "c # s = [] @ sub @ drop (length sub) (c # s)"
        by (metis append_Nil append_take_drop_id)
      then show ?thesis by blast
    next
      case 2
      with Cons.IH obtain pre post where "s = pre @ sub @ post" by blast
      then have "c # s = (c # pre) @ sub @ post" by simp
      then show ?thesis by blast
    qed
  next
    assume "\<exists>pre post. c # s = pre @ sub @ post"
    then obtain pre post where eq: "c # s = pre @ sub @ post" by blast
    show "hasSubstring sub (c # s)"
    proof (cases pre)
      case Nil
      with eq have "take (length sub) (c # s) = sub" by simp
      then show ?thesis by simp
    next
      case (Cons d pre')
      with eq have "s = pre' @ sub @ post" by simp
      with Cons.IH have "hasSubstring sub s" by blast
      then show ?thesis by simp
    qed
  qed
qed

lemma stripLeadingDot_eq:
  "stripLeadingDot base = (if take 2 base = ''./'' then drop 1 base else base)"
proof (cases base)
  case Nil
  then show ?thesis by simp
next
  case (Cons c rest)
  then show ?thesis by (cases rest) auto
qed

text \<open>
  Claim C8, as stated, fails: with the base \<^verbatim>\<open>./foo/\<close> the relative url \<^verbatim>\<open>bar\<close> is
  compiled from \<^verbatim>\<open>/foo/bar\<close>, not from the join of \<^verbatim>\<open>foo/\<close> and \<^verbatim>\<open>bar\<close>: only
  the dot of a leading \<^verbatim>\<open>./\<close> is stripped, the slash stays.
\<close>

theorem urlToRegex_dot_slash_counterexample:
  "\<not> startsWith ''bar'' CHR ''/'' \<and> \<not> hasSubstring ''://'' ''bar''
   \<and> urlToRegex specGlobToRegex ''bar'' ''./foo/'' True
       \<noteq> specGlobToRegex (joinUrls (stripDotSlash_spec ''./foo/'') ''bar'') True
   \<and> urlToRegex specGlobToRegex ''bar'' ''./foo/'' True = specGlobToRegex ''/foo/bar'' True"
  by (simp add: urlToRegex_def stripDotSlash_spec_def joinUrls_def startsWith_def endsWith_def
      substr1_def specGlobToRegex_def)

text \<open>
  Claim C8, amended (relative-URL normalisation). A url that neither starts with a slash
  nor contains \<^verbatim>\<open>://\<close> is joined with the base, from which the leading dot of a
  leading \<^verbatim>\<open>./\<close> has been removed (so \<^verbatim>\<open>./foo/\<close> contributes \<^verbatim>\<open>/foo/\<close>), and the
  join is what the glob compiler receives; a url that starts with a slash or contains
  \<^verbatim>\<open>://\<close> is passed to the glob compiler unmodified.
\<close>

theorem urlToRegex_normalization:
  "(\<not> startsWith url CHR ''/'' \<and> \<not> hasSubstring ''://'' url \<longrightarrow>
      urlToRegex G url base q
        = G (joinUrls (if take 2 base = ''./'' then drop 1 base else base) url) q)
   \<and> (startsWith url CHR ''/'' \<or> hasSubstring ''://'' url \<longrightarrow> urlToRegex G url base q = G url q)"
  by (simp add: urlToRegex_def stripLeadingDot_eq)

theorem urlToRegex_normalization_witness:
  "\<not> startsWith ''bar'' CHR ''/'' \<and> \<not> hasSubstring ''://'' ''bar''
   \<and> urlToRegex specGlobToRegex ''bar'' ''./foo/'' True = specGlobToRegex ''/foo/bar'' True
   \<and> startsWith ''/abs'' CHR ''/''
   \<and> urlToRegex specGlobToRegex ''/abs'' ''./foo/'' True = specGlobToRegex ''/abs'' True
   \<and> hasSubstring ''://'' ''http://h/x''
   \<and> urlToRegex specGlobToRegex ''http://h/x'' ''./foo/'' True = specGlobToRegex ''http://h/x'' True"
  using urlToRegex_normalization [of "''bar''" specGlobToRegex "''./foo/''" True]
    urlToRegex_normalization [of "''/abs''" specGlobToRegex "''./foo/''" True]
    urlToRegex_normalization [of "''http://h/x''" specGlobToRegex "''./foo/''" True]
  by (simp add: startsWith_def joinUrls_def endsWith_def)

subsection \<open>Navigation URLs\<close>

lemma urlToRegex_absolute: "startsWith url CHR ''/'' \<Longrightarrow> urlToRegex G url base q = G url q"
  by (simp add: urlToRegex_def)

lemma default_navigation_list:
  "processNavigationUrls G base None =
     [\<lparr>positive = True, regex = ''^'' @ G ''/**'' False @ ''$''\<rparr>,
      \<lparr>positive = False, regex = ''^'' @ G ''/**/*.*'' False @ ''$''\<rparr>,
      \<lparr>positive = False, regex = ''^'' @ G ''/**/*__*'' False @ ''$''\<rparr>,
      \<lparr>positive = False, regex = ''^'' @ G ''/**/*__*/**'' False @ ''$''\<rparr>]"
  by (simp add: processNavigationUrls_def DEFAULT_NAVIGATION_URLS_def startsWith_def substr1_def
      urlToRegex_absolute)

lemma default_navigation_matches:
  assumes "implementsGlobRules G T"
  shows "matches T u (processNavigationUrls G base None) =
     (globMatch False ''/**'' u \<and> \<not> globMatch False ''/**/*.*'' u
      \<and> \<not> globMatch False ''/**/*__*'' u \<and> \<not> globMatch False ''/**/*__*/**'' u)"
  using assms by (simp add: default_navigation_list matches_def implementsGlobRules_def)

text \<open>
  Claim C9 (default navigation URLs). Without \<^verbatim>\<open>navigationUrls\<close> the result is the
  fixed list of four entries, the first positive and the other three negative; for a
  glob compiler and regular expression test that follow the glob rules of the
  specification, \<^verbatim>\<open>/foo/bar\<close> is included by that list and \<^verbatim>\<open>/foo/bar.js\<close>,
  \<^verbatim>\<open>/foo/a__b\<close> and \<^verbatim>\<open>/foo/a__b/c\<close> are excluded.
\<close>

theorem default_navigation_urls:
  assumes "implementsGlobRules G T"
  shows "processNavigationUrls G base None =
     [\<lparr>positive = True, regex = ''^'' @ G ''/**'' False @ ''$''\<rparr>,
      \<lparr>positive = False, regex = ''^'' @ G ''/**/*.*'' False @ ''$''\<rparr>,
      \<lparr>positive = False, regex = ''^'' @ G ''/**/*__*'' False @ ''$''\<rparr>,
      \<lparr>positive = False, regex = ''^'' @ G ''/**/*__*/**'' False @ ''$''\<rparr>]
   \<and> matches T ''/foo/bar'' (processNavigationUrls G base None)
   \<and> \<not> matches T ''/foo/bar.js'' (processNavigationUrls G base None)
   \<and> \<not> matches T ''/foo/a__b'' (processNavigationUrls G base None)
   \<and> \<not> matches T ''/foo/a__b/c'' (processNavigationUrls G base None)"
proof -
  have 1: "matches T ''/foo/bar'' (processNavigationUrls G base None)"
    unfolding default_navigation_matches [OF assms] by (simp add: startsWith_def)
  have 2: "\<not> matches T ''/foo/bar.js'' (processNavigationUrls G base None)"
    unfolding default_navigation_matches [OF assms] by (simp add: startsWith_def)
  have 3: "\<not> matches T ''/foo/a__b'' (processNavigationUrls G base None)"
    unfolding default_navigation_matches [OF assms] by (simp add: startsWith_def)
  have 4: "\<not> matches T ''/foo/a__b/c'' (processNavigationUrls G base None)"
    unfolding default_navigation_matches [OF assms] by (simp add: startsWith_def)
  from default_navigation_list [of G base] 1 2 3 4 show ?thesis by blast
qed

theorem default_navigation_urls_witness:
  "implementsGlobRules specGlobToRegex specRegexTest
   \<and> map positive (processNavigationUrls specGlobToRegex ''/app/'' None) = [True, False, False, False]
   \<and> matches specRegexTest ''/foo/bar'' (processNavigationUrls specGlobToRegex ''/app/'' None)
   \<and> \<not> matches specRegexTest ''/foo/bar.js'' (processNavigationUrls specGlobToRegex ''/app/'' None)"
proof -
  note t = default_navigation_urls [OF spec_implementsGlobRules, of "''/app/''"]
  from t have "map positive (processNavigationUrls specGlobToRegex ''/app/'' None)
      = [True, False, False, False]"
    by simp
  with t spec_implementsGlobRules show ?thesis by blast
qed

subsection \<open>The loop over the asset groups\<close>

lemma compile_globs_valid:
  "\<forall>glob\<in>set globs. V (regex (globPattern G glob)) \<Longrightarrow>
     mapResult (\<lambda>pattern. newRegExp V (globPattern G pattern)) globs
       = Inr (map (globPattern G) globs)"
  by (induction globs) (simp_all add: newRegExp_def)

lemma compile_globs_Inr:
  "mapResult (\<lambda>pattern. newRegExp V (globPattern G pattern)) globs = Inr ps \<Longrightarrow>
     (\<forall>glob\<in>set globs. V (regex (globPattern G glob))) \<and> ps = map (globPattern G) globs"
proof (induction globs arbitrary: ps)
  case Nil
  then show ?case by simp
next
  case (Cons g globs)
  from Cons.prems have v: "V (regex (globPattern G g))"
    by (auto simp: newRegExp_def split: if_splits)
  with Cons.prems obtain ps' where
    ps': "mapResult (\<lambda>pattern. newRegExp V (globPattern G pattern)) globs = Inr ps'"
    and ps: "ps = globPattern G g # ps'"
    by (auto simp: newRegExp_def split: sum.splits)
  from Cons.IH [OF ps'] v ps show ?case by simp
qed

lemma globListToMatcher_Inr:
  assumes "globListToMatcher G V T globs = Inr m"
  shows "m = (\<lambda>file. matches T file (map (globPattern G) globs))"
    and "\<forall>glob\<in>set globs. V (regex (globPattern G glob))"
proof -
  from assms obtain ps where
    ps: "mapResult (\<lambda>pattern. newRegExp V (globPattern G pattern)) globs = Inr ps"
    and m: "m = (\<lambda>file. matches T file ps)"
    by (auto simp: globListToMatcher_def split: sum.splits)
  from compile_globs_Inr [OF ps] m
  show "m = (\<lambda>file. matches T file (map (globPattern G) globs))"
    and "\<forall>glob\<in>set globs. V (regex (globPattern G glob))"
    by simp_all
qed

lemma globListToMatcher_valid:
  assumes "\<forall>glob\<in>set globs. V (regex (globPattern G glob))"
  shows "globListToMatcher G V T globs = Inr (\<lambda>file. matches T file (map (globPattern G) globs))"
  by (simp add: globListToMatcher_def compile_globs_valid [OF assms])

lemma length_perGroup: "length (perGroup G T allFiles seen gs) = length gs"
  by (induction gs arbitrary: seen) (simp_all add: Let_def)

lemma assignFiles_Inr:
  assumes "assignFiles G V T objects allFiles (seen, acc) refs = Inr (seen', fpg)"
  shows "(\<forall>r\<in>set refs. \<not> declaresVersionedFiles (objects r) \<and> groupCompiles G V (objects r))
     \<and> fpg = AList.updates refs (perGroup G T allFiles seen (map objects refs)) acc"
  using assms
proof (induction refs arbitrary: seen acc)
  case Nil
  then show ?case by simp
next
  case (Cons r refs)
  from Cons.prems have nd: "\<not> declaresVersionedFiles (objects r)"
    by (auto simp: Let_def split: if_splits)
  with Cons.prems obtain m where
    m: "globListToMatcher G V T (orEmpty (files (resources (objects r)))) = Inr m"
    by (auto simp: Let_def split: sum.splits)
  note gm = globListToMatcher_Inr [OF m]
  let ?l = "sort (filter (\<lambda>file. file \<notin> seen) (filter (groupMatches G T (objects r)) allFiles))"
  from Cons.prems nd m gm(1) have
    "assignFiles G V T objects allFiles (seen \<union> set ?l, AList.update r ?l acc) refs = Inr (seen', fpg)"
    by (simp add: Let_def)
  from Cons.IH [OF this] nd gm(2) show ?case by (simp add: Let_def)
qed

lemma assignFiles_declared:
  assumes "\<forall>x\<in>set pre. \<not> declaresVersionedFiles (objects x) \<and> groupCompiles G V (objects x)"
    and "declaresVersionedFiles (objects r)"
  shows "assignFiles G V T objects allFiles st (pre @ r # post)
     = Inl (GeneratorError (versionedFilesMessage (agName (objects r))))"
  using assms
proof (induction pre arbitrary: st)
  case Nil
  then show ?case by (cases st) (simp add: Let_def)
next
  case (Cons x pre)
  obtain seen acc where st: "st = (seen, acc)" by (cases st)
  from Cons.prems(1) have c: "groupCompiles G V (objects x)" and nd: "\<not> declaresVersionedFiles (objects x)"
    by simp_all
  have m: "globListToMatcher G V T (orEmpty (files (resources (objects x))))
      = Inr (\<lambda>file. groupMatches G T (objects x) file)"
    by (rule globListToMatcher_valid [OF c])
  from Cons.prems have "\<forall>y\<in>set pre. \<not> declaresVersionedFiles (objects y) \<and> groupCompiles G V (objects y)"
    by simp
  from Cons.IH [OF this Cons.prems(2)] nd m show ?case
    unfolding st by (simp add: Let_def)
qed

lemma find_Some_split:
  "find Q xs = Some x \<Longrightarrow>
     \<exists>post. xs = takeWhile (\<lambda>y. \<not> Q y) xs @ x # post \<and> Q x"
  by (induction xs) (auto split: if_splits)

lemma set_perGroup_nth:
  "i < length gs \<Longrightarrow>
     set (perGroup G T allFiles seen gs ! i) =
       {f \<in> set allFiles. groupMatches G T (gs ! i) f \<and> f \<notin> seen
          \<and> (\<forall>j<i. \<not> groupMatches G T (gs ! j) f)}"
proof (induction gs arbitrary: seen i)
  case Nil
  then show ?case by simp
next
  case (Cons g gs)
  show ?case
  proof (cases i)
    case 0
    then show ?thesis by (auto simp: Let_def)
  next
    case (Suc k)
    with Cons.prems have k: "k < length gs" by simp
    show ?thesis
      unfolding Suc using Cons.IH [OF k]
      by (auto simp: Let_def All_less_Suc2)
  qed
qed

lemma perGroup_subset:
  "i < length gs \<Longrightarrow> set (perGroup G T allFiles seen gs ! i) \<subseteq> set allFiles"
  by (auto simp: set_perGroup_nth)

lemma perGroup_member_subset:
  "l \<in> set (perGroup G T allFiles seen gs) \<Longrightarrow> set l \<subseteq> set allFiles"
  by (induction gs arbitrary: seen) (auto simp: Let_def)

lemma update_fresh: "k \<notin> fst ` set al \<Longrightarrow> AList.update k v al = al @ [(k, v)]"
  by (induction al) auto

lemma set_update_subset: "set (AList.update k v al) \<subseteq> insert (k, v) (set al)"
  by (induction al) auto

lemma set_updates_subset: "set (AList.updates ks vs al) \<subseteq> set al \<union> set (zip ks vs)"
proof (induction ks arbitrary: vs al)
  case Nil
  show ?case by simp
next
  case (Cons k ks)
  show ?case
  proof (cases vs)
    case Nil
    then show ?thesis by simp
  next
    case (Cons v vs')
    from Cons.IH [of vs' "AList.update k v al"] set_update_subset [of k v al]
    show ?thesis unfolding Cons by auto
  qed
qed

lemma dom_updates:
  "length ks = length vs \<Longrightarrow> fst ` set (AList.updates ks vs al) = fst ` set al \<union> set ks"
proof (induction ks arbitrary: vs al)
  case Nil
  then show ?case by simp
next
  case (Cons k ks)
  then obtain v vs' where vs: "vs = v # vs'" by (cases vs) auto
  with Cons.prems have "length ks = length vs'" by simp
  from Cons.IH [OF this, of "AList.update k v al"] show ?case
    unfolding vs by (auto simp: dom_update)
qed

lemma updates_distinct_fresh:
  "distinct ks \<Longrightarrow> length ks = length vs \<Longrightarrow> set ks \<inter> fst ` set al = {} \<Longrightarrow>
     AList.updates ks vs al = al @ zip ks vs"
proof (induction ks arbitrary: vs al)
  case Nil
  then show ?case by simp
next
  case (Cons k ks)
  then obtain v vs' where vs: "vs = v # vs'" by (cases vs) auto
  from Cons.prems(3) have fresh: "k \<notin> fst ` set al" by auto
  have "set ks \<inter> fst ` set (al @ [(k, v)]) = {}"
    using Cons.prems(1,3) by auto
  with Cons.IH [of vs' "al @ [(k, v)]"] Cons.prems(1,2) vs
  have "AList.updates ks vs' (al @ [(k, v)]) = (al @ [(k, v)]) @ zip ks vs'" by simp
  then show ?case unfolding vs by (simp add: update_fresh [OF fresh])
qed

subsection \<open>The hash table and what a successful run returns\<close>

lemma no_rejections:
  "concat (map (\<lambda>r. case r of Inl e \<Rightarrow> [e] | Inr y \<Rightarrow> []) rs) = [] \<Longrightarrow>
     map Inr (concat (map (\<lambda>r. case r of Inl e \<Rightarrow> [] | Inr y \<Rightarrow> [y]) rs)) = rs"
  by (induction rs) (auto split: sum.splits)

lemma promiseAll_Inr:
  assumes "promiseAll first f xs = Inr ys"
  shows "map f xs = map Inr ys"
proof -
  from assms have
    "concat (map (\<lambda>r. case r of Inl e \<Rightarrow> [e] | Inr y \<Rightarrow> []) (map f xs)) = []"
    and "ys = concat (map (\<lambda>r. case r of Inl e \<Rightarrow> [] | Inr y \<Rightarrow> [y]) (map f xs))"
    by (auto simp: promiseAll_def Let_def split: if_splits)
  with no_rejections [of "map f xs"] show ?thesis by simp
qed

lemma promiseAll_any_first:
  "promiseAll a f xs = Inr ys \<Longrightarrow> promiseAll b f xs = Inr ys"
  by (auto simp: promiseAll_def Let_def split: if_splits)

lemma storeHashes_snoc:
  "storeHashes base table (es @ [(f, h)]) = AList.update (joinUrls base f) h (storeHashes base table es)"
  by (simp add: storeHashes_def)

lemma storeHashes_keys:
  "fst ` set (storeHashes base table es) = fst ` set table \<union> joinUrls base ` fst ` set es"
proof (induction es rule: rev_induct)
  case Nil
  show ?case by (simp add: storeHashes_def)
next
  case (snoc e es)
  obtain f h where e: "e = (f, h)" by (cases e)
  show ?case unfolding e storeHashes_snoc by (auto simp: dom_update snoc.IH)
qed

lemma storeHashes_distinct:
  "distinct (map fst table) \<Longrightarrow> distinct (map fst (storeHashes base table es))"
proof (induction es rule: rev_induct)
  case Nil
  then show ?case by (simp add: storeHashes_def)
next
  case (snoc e es)
  obtain f h where e: "e = (f, h)" by (cases e)
  show ?case unfolding e storeHashes_snoc using snoc by (simp add: distinct_update)
qed

lemma storeHashes_lookup:
  assumes "inj_on (joinUrls base) (set fl)" and "f \<in> set fl"
  shows "map_of (storeHashes base table (map (\<lambda>x. (x, v x)) fl)) (joinUrls base f) = Some (v f)"
  using assms
proof (induction fl rule: rev_induct)
  case Nil
  then show ?case by simp
next
  case (snoc x xs)
  have inj: "inj_on (joinUrls base) (set xs)"
    using snoc.prems(1) by (simp add: inj_on_def)
  show ?case
  proof (cases "joinUrls base f = joinUrls base x")
    case True
    with snoc.prems have "f = x" by (auto simp: inj_on_def)
    then show ?thesis by (simp add: storeHashes_snoc update_conv')
  next
    case False
    with snoc.prems(2) have "f \<in> set xs" by auto
    with snoc.IH [OF inj] False show ?thesis by (simp add: storeHashes_snoc update_conv')
  qed
qed

lemma zip_map_Inr:
  "map h fl = map Inr hs \<Longrightarrow> zip fl hs = map (\<lambda>x. (x, projr (h x))) fl"
proof (induction fl arbitrary: hs)
  case Nil
  then show ?case by simp
next
  case (Cons a fl)
  then obtain b hs' where "hs = b # hs'" by (cases hs) auto
  with Cons show ?case by auto
qed

lemma map_Inr_projr:
  "map h fl = map Inr hs \<Longrightarrow> f \<in> set fl \<Longrightarrow> h f = Inr (projr (h f))"
proof (induction fl arbitrary: hs)
  case Nil
  then show ?case by simp
next
  case (Cons a fl)
  then obtain b hs' where "hs = b # hs'" by (cases hs) auto
  with Cons show ?case by auto
qed

text \<open>The set of entries of the unordered table.\<close>

lemma storeHashes_set:
  assumes inj: "inj_on (joinUrls base) (set fl)"
    and hs: "map h fl = map Inr hs"
  shows "set (storeHashes base [] (zip fl hs)) = {(joinUrls base f, v) |f v. f \<in> set fl \<and> h f = Inr v}"
    (is "set ?U = ?R")
proof -
  have z: "zip fl hs = map (\<lambda>x. (x, projr (h x))) fl" by (rule zip_map_Inr [OF hs])
  have d: "distinct (map fst ?U)" by (rule storeHashes_distinct) simp
  have keys: "fst ` set ?U = joinUrls base ` set fl"
    unfolding z by (simp add: storeHashes_keys image_image)
  have look: "map_of ?U (joinUrls base f) = Some (projr (h f))" if "f \<in> set fl" for f
    unfolding z by (rule storeHashes_lookup [OF inj that])
  show ?thesis
  proof (intro set_eqI iffI)
    fix e assume e: "e \<in> set ?U"
    obtain k v where kv: "e = (k, v)" by (cases e)
    from e kv keys obtain f where f: "f \<in> set fl" "k = joinUrls base f"
      by (metis (no_types, lifting) fst_conv image_iff)
    from e kv d have "map_of ?U k = Some v" by simp
    with look [OF f(1)] f(2) have "v = projr (h f)" by simp
    moreover have "h f = Inr (projr (h f))" by (rule map_Inr_projr [OF hs f(1)])
    ultimately show "e \<in> ?R" using kv f by auto
  next
    fix e assume "e \<in> ?R"
    then obtain f v where f: "e = (joinUrls base f, v)" "f \<in> set fl" "h f = Inr v" by blast
    from look [OF f(2)] f(3) have "map_of ?U (joinUrls base f) = Some v" by simp
    then show "e \<in> set ?U" unfolding f(1) by (rule map_of_SomeD)
  qed
qed

lemma orderKeys_fold:
  assumes "distinct ks" and "set ks \<subseteq> fst ` set U" and "set ks \<inter> fst ` set acc = {}"
  shows "foldl (\<lambda>orderedObj key.
              case map_of U key of
                Some v \<Rightarrow> AList.update key v orderedObj
              | None \<Rightarrow> orderedObj) acc ks = acc @ map (\<lambda>k. (k, the (map_of U k))) ks"
  using assms
proof (induction ks arbitrary: acc)
  case Nil
  show ?case by simp
next
  case (Cons k ks)
  from Cons.prems(2) obtain v where v: "map_of U k = Some v"
    by (metis list.set_intros(1) map_of_eq_None_iff not_Some_eq subsetD)
  from Cons.prems(3) have fresh: "k \<notin> fst ` set acc" by auto
  have step: "AList.update k v acc = acc @ [(k, v)]" by (rule update_fresh [OF fresh])
  have "set ks \<inter> fst ` set (acc @ [(k, v)]) = {}"
    using Cons.prems(1,3) by auto
  with Cons.IH [of "acc @ [(k, v)]"] Cons.prems(1,2)
  show ?case by (simp add: v step)
qed

lemma withOrderedKeys_eq:
  assumes "distinct (map fst U)"
  shows "withOrderedKeys U = map (\<lambda>k. (k, the (map_of U k))) (sort (map fst U))"
  unfolding withOrderedKeys_def
  using orderKeys_fold [of "sort (map fst U)" U "[]"] assms by simp

lemma withOrderedKeys_keys:
  "distinct (map fst U) \<Longrightarrow> map fst (withOrderedKeys U) = sort (map fst U)"
  by (simp add: withOrderedKeys_eq comp_def)

lemma withOrderedKeys_set:
  assumes "distinct (map fst U)"
  shows "set (withOrderedKeys U) = set U"
proof -
  have "set (withOrderedKeys U) = (\<lambda>k. (k, the (map_of U k))) ` fst ` set U"
    by (simp add: withOrderedKeys_eq [OF assms])
  also have "\<dots> = set U"
  proof (intro set_eqI iffI)
    fix e assume "e \<in> (\<lambda>k. (k, the (map_of U k))) ` fst ` set U"
    then obtain k v where kv: "(k, v) \<in> set U" "e = (k, the (map_of U k))" by auto
    from kv(1) assms have "map_of U k = Some v" by simp
    with kv show "e \<in> set U" by simp
  next
    fix e assume e: "e \<in> set U"
    obtain k v where kv: "e = (k, v)" by (cases e)
    with e assms have "map_of U k = Some v" by simp
    with e kv show "e \<in> (\<lambda>k. (k, the (map_of U k))) ` fst ` set U" by force
  qed
  finally show ?thesis .
qed

lemma joinUrls_inj:
  assumes "startsWith a CHR ''/''" and "startsWith b CHR ''/''"
    and "joinUrls base a = joinUrls base b"
  shows "a = b"
proof -
  from assms(1,2) obtain a' b' where ab: "a = CHR ''/'' # a'" "b = CHR ''/'' # b'"
    by (auto simp: startsWith_iff)
  with assms(3) show ?thesis
    by (cases "endsWith base CHR ''/''") (simp_all add: joinUrls_def startsWith_def substr1_def)
qed

lemma joinUrls_inj_on:
  "\<forall>f\<in>A. startsWith f CHR ''/'' \<Longrightarrow> inj_on (joinUrls base) A"
  by (auto simp: inj_on_def intro: joinUrls_inj)

lemma processAssetGroups_Inr:
  assumes "processAssetGroups first G V T this cfg h0 = Inr r"
  obtains allFiles fpg hs where
    "fsList (fs this) = Inr allFiles"
    "\<forall>x\<in>set (orEmpty (cfgAssetGroups cfg)).
       \<not> declaresVersionedFiles (cfgObjects cfg x) \<and> groupCompiles G V (cfgObjects cfg x)"
    "fpg = AList.updates (orEmpty (cfgAssetGroups cfg))
       (perGroup G T allFiles {} (map (cfgObjects cfg) (orEmpty (cfgAssetGroups cfg)))) []"
    "promiseAll first (fsHash (fs this)) (sort (concat (map snd fpg))) = Inr hs"
    "r = (map (emitAssetGroup G (baseHref this) (cfgObjects cfg)) fpg,
          storeHashes (baseHref this) h0 (zip (sort (concat (map snd fpg))) hs))"
proof -
  from assms obtain allFiles where l: "fsList (fs this) = Inr allFiles"
    by (auto simp: processAssetGroups_def split: sum.splits)
  with assms obtain seen' fpg where
    a: "assignFiles G V T (cfgObjects cfg) allFiles ({}, []) (orEmpty (cfgAssetGroups cfg))
      = Inr (seen', fpg)"
    by (auto simp: processAssetGroups_def split: sum.splits)
  from assms l a obtain hs where
    hs: "promiseAll first (fsHash (fs this)) (sort (concat (map snd fpg))) = Inr hs"
    by (auto simp: processAssetGroups_def Let_def split: sum.splits)
  from assms l a hs have
    r: "r = (map (emitAssetGroup G (baseHref this) (cfgObjects cfg)) fpg,
          storeHashes (baseHref this) h0 (zip (sort (concat (map snd fpg))) hs))"
    by (simp add: processAssetGroups_def Let_def)
  from assignFiles_Inr [OF a] l hs r show thesis by (intro that) simp_all
qed

lemma process_Inr:
  assumes "process now first G V T P this cfg = Inr m"
  obtains allFiles fpg hs where
    "fsList (fs this) = Inr allFiles"
    "\<forall>x\<in>set (orEmpty (cfgAssetGroups cfg)).
       \<not> declaresVersionedFiles (cfgObjects cfg x) \<and> groupCompiles G V (cfgObjects cfg x)"
    "fpg = AList.updates (orEmpty (cfgAssetGroups cfg))
       (perGroup G T allFiles {} (map (cfgObjects cfg) (orEmpty (cfgAssetGroups cfg)))) []"
    "promiseAll first (fsHash (fs this)) (sort (concat (map snd fpg))) = Inr hs"
    "assetGroups m = map (emitAssetGroup G (baseHref this) (cfgObjects cfg)) fpg"
    "hashTable m = withOrderedKeys (storeHashes (baseHref this) []
       (zip (sort (concat (map snd fpg))) hs))"
proof -
  from assms obtain r where r: "processAssetGroups first G V T this cfg [] = Inr r"
    by (auto simp: process_def split: sum.splits)
  from assms r have m: "assetGroups m = fst r" "hashTable m = withOrderedKeys (snd r)"
    by (auto simp: process_def split: sum.splits prod.splits)
  from r show thesis
  proof (rule processAssetGroups_Inr)
    fix allFiles fpg hs
    assume "fsList (fs this) = Inr allFiles"
      "\<forall>x\<in>set (orEmpty (cfgAssetGroups cfg)).
         \<not> declaresVersionedFiles (cfgObjects cfg x) \<and> groupCompiles G V (cfgObjects cfg x)"
      "fpg = AList.updates (orEmpty (cfgAssetGroups cfg))
         (perGroup G T allFiles {} (map (cfgObjects cfg) (orEmpty (cfgAssetGroups cfg)))) []"
      "promiseAll first (fsHash (fs this)) (sort (concat (map snd fpg))) = Inr hs"
      "r = (map (emitAssetGroup G (baseHref this) (cfgObjects cfg)) fpg,
          storeHashes (baseHref this) [] (zip (sort (concat (map snd fpg))) hs))"
    with m show thesis by (intro that) simp_all
  qed
qed

lemma urls_emitAssetGroup: "urls (emitAssetGroup G base objects (r, ms)) = map (joinUrls base) ms"
  by (simp add: emitAssetGroup_def Let_def)

lemma name_emitAssetGroup: "name (emitAssetGroup G base objects (r, ms)) = agName (objects r)"
  by (simp add: emitAssetGroup_def Let_def)

text \<open>The files recorded in the map are files of the listing.\<close>

lemma recorded_files_subset:
  assumes "fpg = AList.updates refs (perGroup G T allFiles seen gs) []"
  shows "set (concat (map snd fpg)) \<subseteq> set allFiles"
proof
  fix f assume "f \<in> set (concat (map snd fpg))"
  then obtain k l where kl: "(k, l) \<in> set fpg" "f \<in> set l" by auto
  from kl(1) assms set_updates_subset [of refs "perGroup G T allFiles seen gs" "[]"]
  have "(k, l) \<in> set (zip refs (perGroup G T allFiles seen gs))" by auto
  then have "l \<in> set (perGroup G T allFiles seen gs)" by (rule set_zip_rightD)
  from perGroup_member_subset [OF this] kl(2) show "f \<in> set allFiles" by blast
qed

subsection \<open>The example runs\<close>

lemmas example_defs = exampleGroup_def exampleObjects_def exampleConfigOf_def exampleConfig_def
  exampleAliasedConfig_def exampleHash_def exampleGenerator_def exampleDurations_def
  exampleGroupOut_def exampleManifestOf_def exampleManifest_def

lemmas eval_defs = process_def processAssetGroups_def processDataGroups_def
  globListToMatcher_def newRegExp_def globPattern_def promiseAll_def matches_def
  specRegexTest_def specGlobToRegex_def specRegExpValid_def startsWith_def
  endsWith_def substr1_def orEmpty_def Let_def emitAssetGroup_def joinUrls_def
  withOrderedKeys_def orDefault_def nullishDefault_def buildCacheQueryOptions_def
  processNavigationUrls_def storeHashes_def

lemma example_run:
  "process now first specGlobToRegex specRegExpValid specRegexTest exampleDurations
     (exampleGenerator [''/vendor.js'', ''/readme.txt'', ''/main.js'']) exampleConfig
   = Inr (exampleManifest now)"
  by (simp add: example_defs eval_defs)

text \<open>One group object listed twice: the second pass replaces the list of the first in
  the map, so one group is emitted, without urls, and no file is hashed.\<close>

lemma example_run_aliased:
  "process now first specGlobToRegex specRegExpValid specRegexTest exampleDurations
     (exampleGenerator [''/vendor.js'', ''/readme.txt'', ''/main.js'']) exampleAliasedConfig
   = Inr (exampleManifestOf now [exampleGroupOut ''app'' []] [])"
  by (simp add: example_defs eval_defs)

lemma example_listing:
  "fsList (fs (exampleGenerator listing)) = Inr listing"
  by (simp add: exampleGenerator_def)

lemma example_absolute:
  "\<forall>f\<in>set [''/vendor.js'', ''/readme.txt'', ''/main.js'']. startsWith f CHR ''/''"
  by (simp add: startsWith_def)

lemma example_refs: "orEmpty (cfgAssetGroups exampleConfig) = [0, 1, 2, 3]"
  by (simp add: exampleConfig_def exampleConfigOf_def orEmpty_def)

subsection \<open>Deduplication across groups\<close>

text \<open>
  Claim C1, as stated, fails: in the example run the file \<^verbatim>\<open>/main.js\<close> is matched by
  the globs of the groups \<^verbatim>\<open>assets\<close> and \<^verbatim>\<open>rest\<close>, \<^verbatim>\<open>assets\<close> is declared
  before \<^verbatim>\<open>rest\<close>, and yet the file is not among the urls of \<^verbatim>\<open>assets\<close>: the
  earlier group \<^verbatim>\<open>app\<close> has claimed it.
\<close>

theorem dedup_counterexample:
  "cfgObjects exampleConfig (orEmpty (cfgAssetGroups exampleConfig) ! 1)
      = exampleGroup ''assets'' (Some [''/**'']) None
   \<and> cfgObjects exampleConfig (orEmpty (cfgAssetGroups exampleConfig) ! 2)
      = exampleGroup ''rest'' (Some [''/**'']) None
   \<and> distinct (orEmpty (cfgAssetGroups exampleConfig))
   \<and> groupMatches specGlobToRegex specRegexTest (exampleGroup ''assets'' (Some [''/**'']) None) ''/main.js''
   \<and> groupMatches specGlobToRegex specRegexTest (exampleGroup ''rest'' (Some [''/**'']) None) ''/main.js''
   \<and> process 0 0 specGlobToRegex specRegExpValid specRegexTest exampleDurations
        (exampleGenerator [''/vendor.js'', ''/readme.txt'', ''/main.js'']) exampleConfig
      = Inr (exampleManifest 0)
   \<and> name (assetGroups (exampleManifest 0) ! 1) = ''assets''
   \<and> joinUrls ''/'' ''/main.js'' \<notin> set (urls (assetGroups (exampleManifest 0) ! 1))"
proof -
  have "cfgObjects exampleConfig (orEmpty (cfgAssetGroups exampleConfig) ! 1)
      = exampleGroup ''assets'' (Some [''/**'']) None"
    "cfgObjects exampleConfig (orEmpty (cfgAssetGroups exampleConfig) ! 2)
      = exampleGroup ''rest'' (Some [''/**'']) None"
    "distinct (orEmpty (cfgAssetGroups exampleConfig))"
    by (simp_all add: exampleConfig_def exampleConfigOf_def exampleObjects_def orEmpty_def)
  moreover have
    "groupMatches specGlobToRegex specRegexTest (exampleGroup ''assets'' (Some [''/**'']) None) ''/main.js''"
    "groupMatches specGlobToRegex specRegexTest (exampleGroup ''rest'' (Some [''/**'']) None) ''/main.js''"
    by (simp_all add: example_defs eval_defs)
  moreover have "name (assetGroups (exampleManifest 0) ! 1) = ''assets''"
    "joinUrls ''/'' ''/main.js'' \<notin> set (urls (assetGroups (exampleManifest 0) ! 1))"
    by (simp_all add: exampleManifest_def exampleManifestOf_def exampleGroupOut_def joinUrls_def
        startsWith_def endsWith_def substr1_def)
  ultimately show ?thesis using example_run [of 0 0] by blast
qed

lemma process_urls:
  assumes run: "process now first G V T P this cfg = Inr m"
    and lst: "fsList (fs this) = Inr allFiles"
    and dist: "distinct (orEmpty (cfgAssetGroups cfg))"
  shows "length (assetGroups m) = length (orEmpty (cfgAssetGroups cfg))"
    and "i < length (orEmpty (cfgAssetGroups cfg)) \<Longrightarrow>
         urls (assetGroups m ! i) =
           map (joinUrls (baseHref this))
             (perGroup G T allFiles {} (map (cfgObjects cfg) (orEmpty (cfgAssetGroups cfg))) ! i)"
proof -
  let ?refs = "orEmpty (cfgAssetGroups cfg)"
  from run obtain allFiles' fpg where
    l': "fsList (fs this) = Inr allFiles'" and
    fpg': "fpg = AList.updates ?refs (perGroup G T allFiles' {} (map (cfgObjects cfg) ?refs)) []" and
    ag: "assetGroups m = map (emitAssetGroup G (baseHref this) (cfgObjects cfg)) fpg"
    by (rule process_Inr)
  from l' lst have eq: "allFiles' = allFiles" by simp
  let ?ms = "perGroup G T allFiles {} (map (cfgObjects cfg) ?refs)"
  have len: "length ?refs = length ?ms" by (simp add: length_perGroup)
  have fpg: "fpg = zip ?refs ?ms"
    unfolding fpg' eq using updates_distinct_fresh [OF dist len, of "[]"] by simp
  show "length (assetGroups m) = length ?refs"
    by (simp add: ag fpg length_perGroup)
  show "urls (assetGroups m ! i) = map (joinUrls (baseHref this)) (?ms ! i)"
    if "i < length ?refs"
    using that by (simp add: ag fpg length_perGroup urls_emitAssetGroup)
qed

lemma url_in_group_iff:
  assumes abs: "\<forall>f\<in>set allFiles. startsWith f CHR ''/''"
    and f: "f \<in> set allFiles" and i: "i < length gs"
  shows "joinUrls base f \<in> joinUrls base ` set (perGroup G T allFiles {} gs ! i)
     \<longleftrightarrow> groupMatches G T (gs ! i) f \<and> (\<forall>j<i. \<not> groupMatches G T (gs ! j) f)"
proof -
  have "joinUrls base f \<in> joinUrls base ` set (perGroup G T allFiles {} gs ! i)
     \<longleftrightarrow> f \<in> set (perGroup G T allFiles {} gs ! i)"
  proof
    assume "joinUrls base f \<in> joinUrls base ` set (perGroup G T allFiles {} gs ! i)"
    then obtain f' where f': "f' \<in> set (perGroup G T allFiles {} gs ! i)"
      "joinUrls base f = joinUrls base f'" by blast
    from f'(1) perGroup_subset [OF i] have "f' \<in> set allFiles" by blast
    with abs f f'(2) have "f = f'" by (auto intro: joinUrls_inj)
    with f'(1) show "f \<in> set (perGroup G T allFiles {} gs ! i)" by simp
  qed simp
  with f show ?thesis by (simp add: set_perGroup_nth [OF i])
qed

text \<open>
  Claim C1, amended (first matching group wins). For every configuration whose asset
  groups are distinct objects, every file snapshot whose paths start with \<^verbatim>\<open>/\<close> and
  every file \<open>f\<close> of the snapshot, in a run that returns a manifest: the URL of \<open>f\<close>
  appears in the urls of the first group, in the order of the configuration, whose file
  globs match \<open>f\<close>, and in the urls of no other group; the urls of any two emitted
  groups are disjoint. The emitted groups correspond to the configured ones by position.
\<close>

theorem first_match_wins:
  assumes run: "process now first G V T P this cfg = Inr m"
    and lst: "fsList (fs this) = Inr allFiles"
    and abs: "\<forall>f\<in>set allFiles. startsWith f CHR ''/''"
    and dist: "distinct (orEmpty (cfgAssetGroups cfg))"
  shows "length (assetGroups m) = length (orEmpty (cfgAssetGroups cfg))
   \<and> (\<forall>f\<in>set allFiles. \<forall>i<length (orEmpty (cfgAssetGroups cfg)).
        groupMatches G T (cfgObjects cfg (orEmpty (cfgAssetGroups cfg) ! i)) f
        \<and> (\<forall>j<i. \<not> groupMatches G T (cfgObjects cfg (orEmpty (cfgAssetGroups cfg) ! j)) f) \<longrightarrow>
          joinUrls (baseHref this) f \<in> set (urls (assetGroups m ! i))
          \<and> (\<forall>k<length (orEmpty (cfgAssetGroups cfg)). k \<noteq> i \<longrightarrow>
                joinUrls (baseHref this) f \<notin> set (urls (assetGroups m ! k))))
   \<and> (\<forall>i j. i < j \<and> j < length (assetGroups m) \<longrightarrow>
        set (urls (assetGroups m ! i)) \<inter> set (urls (assetGroups m ! j)) = {})"
proof -
  let ?refs = "orEmpty (cfgAssetGroups cfg)"
  let ?gs = "map (cfgObjects cfg) ?refs"
  let ?ms = "perGroup G T allFiles {} ?gs"
  let ?key = "joinUrls (baseHref this)"
  note len = process_urls(1) [OF run lst dist]
  have u: "set (urls (assetGroups m ! i)) = ?key ` set (?ms ! i)" if "i < length ?refs" for i
    using process_urls(2) [OF run lst dist that] by simp
  have mem: "?key f \<in> set (urls (assetGroups m ! i))
     \<longleftrightarrow> groupMatches G T (cfgObjects cfg (?refs ! i)) f
         \<and> (\<forall>j<i. \<not> groupMatches G T (cfgObjects cfg (?refs ! j)) f)"
    if "f \<in> set allFiles" "i < length ?refs" for f i
  proof -
    from that(2) have i: "i < length ?gs" by simp
    from that(2) have nth: "?gs ! j = cfgObjects cfg (?refs ! j)" if "j \<le> i" for j
      using that by simp
    from url_in_group_iff [OF abs that(1) i, of "baseHref this" G T] nth
    show ?thesis unfolding u [OF that(2)] by (simp add: less_imp_le)
  qed
  have first: "?key f \<in> set (urls (assetGroups m ! i))
          \<and> (\<forall>k<length ?refs. k \<noteq> i \<longrightarrow> ?key f \<notin> set (urls (assetGroups m ! k)))"
    if f: "f \<in> set allFiles" and i: "i < length ?refs"
      and hit: "groupMatches G T (cfgObjects cfg (?refs ! i)) f"
      and miss: "\<forall>j<i. \<not> groupMatches G T (cfgObjects cfg (?refs ! j)) f"
    for f i
  proof (intro conjI allI impI)
    show "?key f \<in> set (urls (assetGroups m ! i))"
      using mem [OF f i] hit miss by simp
  next
    fix k assume k: "k < length ?refs" "k \<noteq> i"
    show "?key f \<notin> set (urls (assetGroups m ! k))"
    proof
      assume "?key f \<in> set (urls (assetGroups m ! k))"
      with mem [OF f k(1)] have km: "groupMatches G T (cfgObjects cfg (?refs ! k)) f"
        "\<forall>j<k. \<not> groupMatches G T (cfgObjects cfg (?refs ! j)) f" by simp_all
      from k(2) consider "k < i" | "i < k" by (meson nat_neq_iff)
      then show False
      proof cases
        case 1
        with miss km(1) show False by blast
      next
        case 2
        with km(2) hit show False by blast
      qed
    qed
  qed
  have disj: "set (urls (assetGroups m ! i)) \<inter> set (urls (assetGroups m ! j)) = {}"
    if ij: "i < j" "j < length (assetGroups m)" for i j
  proof (rule ccontr)
    assume "set (urls (assetGroups m ! i)) \<inter> set (urls (assetGroups m ! j)) \<noteq> {}"
    then obtain x where x: "x \<in> set (urls (assetGroups m ! i))" "x \<in> set (urls (assetGroups m ! j))"
      by blast
    from ij len have i: "i < length ?refs" and j: "j < length ?refs" by simp_all
    from i have ig: "i < length ?gs" by simp
    from x(1) u [OF i] obtain f where f: "f \<in> set (?ms ! i)" "x = ?key f" by auto
    from f(1) perGroup_subset [OF ig] have fa: "f \<in> set allFiles" by blast
    from x(1) f(2) mem [OF fa i] have "groupMatches G T (cfgObjects cfg (?refs ! i)) f" by simp
    moreover from x(2) f(2) mem [OF fa j]
    have "\<forall>k<j. \<not> groupMatches G T (cfgObjects cfg (?refs ! k)) f" by simp
    ultimately show False using ij(1) by blast
  qed
  from len first disj show ?thesis by blast
qed

theorem first_match_wins_witness:
  "process 0 0 specGlobToRegex specRegExpValid specRegexTest exampleDurations
        (exampleGenerator [''/vendor.js'', ''/readme.txt'', ''/main.js'']) exampleConfig
      = Inr (exampleManifest 0)
   \<and> distinct (orEmpty (cfgAssetGroups exampleConfig))
   \<and> groupMatches specGlobToRegex specRegexTest
        (cfgObjects exampleConfig (orEmpty (cfgAssetGroups exampleConfig) ! 1)) ''/readme.txt''
   \<and> \<not> groupMatches specGlobToRegex specRegexTest
        (cfgObjects exampleConfig (orEmpty (cfgAssetGroups exampleConfig) ! 0)) ''/readme.txt''
   \<and> joinUrls ''/'' ''/readme.txt'' \<in> set (urls (assetGroups (exampleManifest 0) ! 1))
   \<and> joinUrls ''/'' ''/readme.txt'' \<notin> set (urls (assetGroups (exampleManifest 0) ! 2))
   \<and> set (urls (assetGroups (exampleManifest 0) ! 0)) \<inter> set (urls (assetGroups (exampleManifest 0) ! 1)) = {}"
proof -
  let ?refs = "orEmpty (cfgAssetGroups exampleConfig)"
  let ?obj = "cfgObjects exampleConfig"
  have dist: "distinct ?refs" by (simp add: example_refs)
  note t = first_match_wins [OF example_run [of 0 0] example_listing example_absolute dist]
  have b: "baseHref (exampleGenerator [''/vendor.js'', ''/readme.txt'', ''/main.js'']) = ''/''"
    by (simp add: exampleGenerator_def)
  have len: "length ?refs = 4" by (simp add: example_refs)
  have hit: "groupMatches specGlobToRegex specRegexTest (?obj (?refs ! 1)) ''/readme.txt''"
    by (simp add: example_defs eval_defs)
  have miss: "\<not> groupMatches specGlobToRegex specRegexTest (?obj (?refs ! 0)) ''/readme.txt''"
    by (simp add: example_defs eval_defs)
  from miss have miss': "\<forall>j<1. \<not> groupMatches specGlobToRegex specRegexTest (?obj (?refs ! j)) ''/readme.txt''"
    by simp
  from t have "\<forall>f\<in>set [''/vendor.js'', ''/readme.txt'', ''/main.js'']. \<forall>i<length ?refs.
        groupMatches specGlobToRegex specRegexTest (?obj (?refs ! i)) f
        \<and> (\<forall>j<i. \<not> groupMatches specGlobToRegex specRegexTest (?obj (?refs ! j)) f) \<longrightarrow>
          joinUrls ''/'' f \<in> set (urls (assetGroups (exampleManifest 0) ! i))
          \<and> (\<forall>k<length ?refs. k \<noteq> i \<longrightarrow>
                joinUrls ''/'' f \<notin> set (urls (assetGroups (exampleManifest 0) ! k)))"
    unfolding b by blast
  then have "\<forall>i<length ?refs.
        groupMatches specGlobToRegex specRegexTest (?obj (?refs ! i)) ''/readme.txt''
        \<and> (\<forall>j<i. \<not> groupMatches specGlobToRegex specRegexTest (?obj (?refs ! j)) ''/readme.txt'') \<longrightarrow>
          joinUrls ''/'' ''/readme.txt'' \<in> set (urls (assetGroups (exampleManifest 0) ! i))
          \<and> (\<forall>k<length ?refs. k \<noteq> i \<longrightarrow>
                joinUrls ''/'' ''/readme.txt'' \<notin> set (urls (assetGroups (exampleManifest 0) ! k)))"
    by simp
  with hit miss' len have first:
    "joinUrls ''/'' ''/readme.txt'' \<in> set (urls (assetGroups (exampleManifest 0) ! 1))
     \<and> (\<forall>k<length ?refs. k \<noteq> 1 \<longrightarrow>
           joinUrls ''/'' ''/readme.txt'' \<notin> set (urls (assetGroups (exampleManifest 0) ! k)))"
    by (metis one_less_numeral_iff semiring_norm(76))
  with len have other: "joinUrls ''/'' ''/readme.txt'' \<notin> set (urls (assetGroups (exampleManifest 0) ! 2))"
    by simp
  have "length (assetGroups (exampleManifest 0)) = 4"
    by (simp add: exampleManifest_def exampleManifestOf_def)
  with t have disj: "set (urls (assetGroups (exampleManifest 0) ! 0))
      \<inter> set (urls (assetGroups (exampleManifest 0) ! 1)) = {}"
    by simp
  from example_run [of 0 0] dist hit miss first other disj show ?thesis by blast
qed

subsection \<open>The hash table of the manifest\<close>

text \<open>
  Claim C4 (sorted hash-table keys). The keys of the hash table of every manifest that
  \<^const>\<open>process\<close> returns are pairwise distinct and in strictly ascending
  lexicographic order, whatever the order of the file listing.
\<close>

theorem hashTable_sorted:
  assumes run: "process now first G V T P this cfg = Inr m"
  shows "distinct (map fst (hashTable m)) \<and> sorted_wrt (<) (map fst (hashTable m))"
proof -
  from run obtain fpg :: "(ref \<times> string list) list" and hs where
    ht: "hashTable m = withOrderedKeys (storeHashes (baseHref this) []
       (zip (sort (concat (map snd fpg))) hs))"
    by (rule process_Inr)
  let ?U = "storeHashes (baseHref this) [] (zip (sort (concat (map snd fpg))) hs)"
  have d: "distinct (map fst ?U)" by (rule storeHashes_distinct) simp
  have keys: "map fst (hashTable m) = sort (map fst ?U)"
    unfolding ht by (rule withOrderedKeys_keys [OF d])
  have "distinct (sort (map fst ?U))" "sorted (sort (map fst ?U))"
    using d by simp_all
  then show ?thesis unfolding keys by (simp add: strict_sorted_iff)
qed

theorem hashTable_sorted_witness:
  "process 0 0 specGlobToRegex specRegExpValid specRegexTest exampleDurations
        (exampleGenerator [''/vendor.js'', ''/readme.txt'', ''/main.js'']) exampleConfig
      = Inr (exampleManifest 0)
   \<and> sorted_wrt (<) (map fst (hashTable (exampleManifest 0)))
   \<and> map fst (hashTable (exampleManifest 0)) = [''/main.js'', ''/readme.txt'', ''/vendor.js'']"
proof -
  have "map fst (hashTable (exampleManifest 0)) = [''/main.js'', ''/readme.txt'', ''/vendor.js'']"
    by (simp add: exampleManifest_def exampleManifestOf_def)
  with hashTable_sorted [OF example_run [of 0 0]] example_run [of 0 0] show ?thesis by blast
qed

text \<open>
  Claim C2 (hash-table completeness). For a snapshot whose paths all start with
  \<^verbatim>\<open>/\<close>, the hash table of the manifest has pairwise distinct keys, its keys are
  exactly the urls of the emitted asset groups, and its entries are exactly the pairs of
  \<^verbatim>\<open>joinUrls(baseHref, file)\<close> and the snapshot's hash of \<^verbatim>\<open>file\<close>, for the files
  of the snapshot whose URL is among those urls.
\<close>

theorem hashTable_complete:
  assumes run: "process now first G V T P this cfg = Inr m"
    and lst: "fsList (fs this) = Inr allFiles"
    and abs: "\<forall>f\<in>set allFiles. startsWith f CHR ''/''"
  shows "distinct (map fst (hashTable m))
   \<and> fst ` set (hashTable m) = (\<Union>g\<in>set (assetGroups m). set (urls g))
   \<and> set (hashTable m) =
       {(joinUrls (baseHref this) f, v) |f v.
          f \<in> set allFiles
          \<and> joinUrls (baseHref this) f \<in> (\<Union>g\<in>set (assetGroups m). set (urls g))
          \<and> fsHash (fs this) f = Inr v}"
proof -
  let ?refs = "orEmpty (cfgAssetGroups cfg)"
  let ?key = "joinUrls (baseHref this)"
  from run obtain allFiles' fpg hs where
    l': "fsList (fs this) = Inr allFiles'" and
    fpg': "fpg = AList.updates ?refs (perGroup G T allFiles' {} (map (cfgObjects cfg) ?refs)) []" and
    hs: "promiseAll first (fsHash (fs this)) (sort (concat (map snd fpg))) = Inr hs" and
    ag: "assetGroups m = map (emitAssetGroup G (baseHref this) (cfgObjects cfg)) fpg" and
    ht: "hashTable m = withOrderedKeys (storeHashes (baseHref this) []
       (zip (sort (concat (map snd fpg))) hs))"
    by (rule process_Inr)
  from l' lst have eq: "allFiles' = allFiles" by simp
  let ?fl = "sort (concat (map snd fpg))"
  let ?U = "storeHashes (baseHref this) [] (zip ?fl hs)"
  have sub: "set ?fl \<subseteq> set allFiles"
    using recorded_files_subset [OF fpg' [unfolded eq]] by simp
  have inj: "inj_on ?key (set allFiles)" by (rule joinUrls_inj_on [OF abs])
  have inj': "inj_on ?key (set ?fl)" by (rule inj_on_subset [OF inj sub])
  have hmap: "map (fsHash (fs this)) ?fl = map Inr hs" by (rule promiseAll_Inr [OF hs])
  have d: "distinct (map fst ?U)" by (rule storeHashes_distinct) simp
  have setU: "set ?U = {(?key f, v) |f v. f \<in> set ?fl \<and> fsHash (fs this) f = Inr v}"
    by (rule storeHashes_set [OF inj' hmap])
  have setH: "set (hashTable m) = set ?U" unfolding ht by (rule withOrderedKeys_set [OF d])
  have dH: "distinct (map fst (hashTable m))"
    unfolding ht withOrderedKeys_keys [OF d] using d by simp
  have urlsU: "(\<Union>g\<in>set (assetGroups m). set (urls g)) = ?key ` set ?fl"
  proof -
    have "(\<Union>g\<in>set (assetGroups m). set (urls g)) = (\<Union>e\<in>set fpg. ?key ` set (snd e))"
      unfolding ag by (auto simp: emitAssetGroup_def Let_def split: prod.splits)
    also have "\<dots> = ?key ` set ?fl" by auto
    finally show ?thesis .
  qed
  have len: "length hs = length ?fl" using hmap by (metis length_map)
  have "map fst (zip ?fl hs) = ?fl" using len by simp
  then have fz: "fst ` set (zip ?fl hs) = set ?fl" by (metis set_map)
  have keysH: "fst ` set (hashTable m) = ?key ` set ?fl"
    unfolding setH by (simp only: storeHashes_keys fz) simp
  have matched: "f \<in> set allFiles \<and> ?key f \<in> ?key ` set ?fl \<longleftrightarrow> f \<in> set ?fl" for f
    using sub inj by (auto simp: inj_on_def)
  have "set (hashTable m) =
       {(?key f, v) |f v. f \<in> set allFiles \<and> ?key f \<in> ?key ` set ?fl \<and> fsHash (fs this) f = Inr v}"
    unfolding setH setU using matched by blast
  with dH keysH urlsU show ?thesis by simp
qed

theorem hashTable_complete_witness:
  "process 0 0 specGlobToRegex specRegExpValid specRegexTest exampleDurations
        (exampleGenerator [''/vendor.js'', ''/readme.txt'', ''/main.js'']) exampleConfig
      = Inr (exampleManifest 0)
   \<and> distinct (map fst (hashTable (exampleManifest 0)))
   \<and> fst ` set (hashTable (exampleManifest 0))
       = (\<Union>g\<in>set (assetGroups (exampleManifest 0)). set (urls g))
   \<and> hashTable (exampleManifest 0)
       = [(''/main.js'', ''sha:/main.js''), (''/readme.txt'', ''sha:/readme.txt''),
          (''/vendor.js'', ''sha:/vendor.js'')]"
proof -
  have "hashTable (exampleManifest 0)
       = [(''/main.js'', ''sha:/main.js''), (''/readme.txt'', ''sha:/readme.txt''),
          (''/vendor.js'', ''sha:/vendor.js'')]"
    by (simp add: exampleManifest_def exampleManifestOf_def)
  with hashTable_complete [OF example_run [of 0 0] example_listing example_absolute]
    example_run [of 0 0]
  show ?thesis by blast
qed

subsection \<open>Determinism\<close>

lemma sort_filter_mset:
  assumes "mset l1 = mset l2"
  shows "sort (filter Q l1) = sort (filter Q l2)"
proof (rule properties_for_sort)
  from assms have "filter_mset Q (mset l1) = filter_mset Q (mset l2)" by simp
  then show "mset (sort (filter Q l2)) = mset (filter Q l1)" by simp
  show "sorted (sort (filter Q l2))" by simp
qed

lemma assignFiles_mset:
  assumes "mset l1 = mset l2"
  shows "assignFiles G V T objects l1 st refs = assignFiles G V T objects l2 st refs"
proof (induction refs arbitrary: st)
  case Nil
  show ?case by (cases st) simp
next
  case (Cons r refs)
  obtain seen acc where st: "st = (seen, acc)" by (cases st)
  show ?case
  proof (cases "globListToMatcher G V T (orEmpty (files (resources (objects r))))")
    case (Inl e)
    then show ?thesis unfolding st by (simp add: Let_def)
  next
    case (Inr m)
    have s: "set l1 = set l2" using assms by (rule mset_eq_setD)
    from Inr show ?thesis
      unfolding st by (simp add: Let_def sort_filter_mset [OF assms] s Cons.IH)
  qed
qed

lemma processAssetGroups_mset:
  assumes "fsList (fs this1) = Inr l1" and "fsList (fs this2) = Inr l2"
    and "mset l1 = mset l2"
    and "fsHash (fs this1) = fsHash (fs this2)" and "baseHref this1 = baseHref this2"
    and "processAssetGroups first1 G V T this1 cfg h0 = Inr r"
  shows "processAssetGroups first2 G V T this2 cfg h0 = Inr r"
proof -
  let ?refs = "orEmpty (cfgAssetGroups cfg)"
  from assms(1,6) obtain seen' fpg where
    a1: "assignFiles G V T (cfgObjects cfg) l1 ({}, []) ?refs = Inr (seen', fpg)"
    by (auto simp: processAssetGroups_def split: sum.splits)
  from assms(1,6) a1 obtain hs where
    hs: "promiseAll first1 (fsHash (fs this1)) (sort (concat (map snd fpg))) = Inr hs"
    by (auto simp: processAssetGroups_def Let_def split: sum.splits)
  from assms(1,6) a1 hs have
    r: "r = (map (emitAssetGroup G (baseHref this1) (cfgObjects cfg)) fpg,
          storeHashes (baseHref this1) h0 (zip (sort (concat (map snd fpg))) hs))"
    by (simp add: processAssetGroups_def Let_def)
  have a2: "assignFiles G V T (cfgObjects cfg) l2 ({}, []) ?refs = Inr (seen', fpg)"
    using a1 assignFiles_mset [OF assms(3)] by simp
  have hs2: "promiseAll first2 (fsHash (fs this2)) (sort (concat (map snd fpg))) = Inr hs"
    using promiseAll_any_first [OF hs] assms(4) by simp
  from a2 hs2 r assms(2,5) show ?thesis
    by (simp add: processAssetGroups_def Let_def)
qed

text \<open>
  Claim C5 (determinism). Two invocations of \<^const>\<open>process\<close> with the same
  configuration, the same base, the same hash function and two listings of the same
  files in any order (each file as often in the one as in the other) return manifests
  that are equal in every field but \<^verbatim>\<open>timestamp\<close>: when the first returns a
  manifest, the second returns that manifest with its own timestamp, whatever the
  clock and the timing of the promises.
\<close>

theorem process_deterministic:
  assumes "fsList (fs this1) = Inr l1" and "fsList (fs this2) = Inr l2"
    and "mset l1 = mset l2"
    and "fsHash (fs this1) = fsHash (fs this2)" and "baseHref this1 = baseHref this2"
    and "process now1 first1 G V T P this1 cfg = Inr m1"
  shows "process now2 first2 G V T P this2 cfg = Inr (m1\<lparr>timestamp := now2\<rparr>)"
proof -
  from assms(6) obtain r where
    r: "processAssetGroups first1 G V T this1 cfg [] = Inr r"
    by (auto simp: process_def split: sum.splits)
  have ag: "processAssetGroups first2 G V T this2 cfg [] = Inr r"
    by (rule processAssetGroups_mset [OF assms(1-5) r])
  have dg: "processDataGroups G P this1 cfg = processDataGroups G P this2 cfg"
    by (simp add: processDataGroups_def assms(5))
  from assms(6) show ?thesis
    unfolding process_def r ag dg assms(5)
    by (auto split: sum.splits prod.splits)
qed

theorem process_deterministic_witness:
  "mset [''/vendor.js'', ''/readme.txt'', ''/main.js''] = mset [''/main.js'', ''/vendor.js'', ''/readme.txt'']
   \<and> process 1 0 specGlobToRegex specRegExpValid specRegexTest exampleDurations
        (exampleGenerator [''/vendor.js'', ''/readme.txt'', ''/main.js'']) exampleConfig
      = Inr (exampleManifest 1)
   \<and> process 2 5 specGlobToRegex specRegExpValid specRegexTest exampleDurations
        (exampleGenerator [''/main.js'', ''/vendor.js'', ''/readme.txt'']) exampleConfig
      = Inr ((exampleManifest 1)\<lparr>timestamp := 2\<rparr>)"
proof -
  have p: "mset [''/vendor.js'', ''/readme.txt'', ''/main.js'']
      = mset [''/main.js'', ''/vendor.js'', ''/readme.txt'']"
    by simp
  have l1: "fsList (fs (exampleGenerator [''/vendor.js'', ''/readme.txt'', ''/main.js'']))
      = Inr [''/vendor.js'', ''/readme.txt'', ''/main.js'']"
    and l2: "fsList (fs (exampleGenerator [''/main.js'', ''/vendor.js'', ''/readme.txt'']))
      = Inr [''/main.js'', ''/vendor.js'', ''/readme.txt'']"
    and h: "fsHash (fs (exampleGenerator [''/vendor.js'', ''/readme.txt'', ''/main.js'']))
      = fsHash (fs (exampleGenerator [''/main.js'', ''/vendor.js'', ''/readme.txt'']))"
    and b: "baseHref (exampleGenerator [''/vendor.js'', ''/readme.txt'', ''/main.js''])
      = baseHref (exampleGenerator [''/main.js'', ''/vendor.js'', ''/readme.txt''])"
    by (simp_all add: exampleGenerator_def)
  note r = example_run [of 1 0]
  from process_deterministic [OF l1 l2 p h b r, of 2 5] p r show ?thesis by blast
qed

subsection \<open>The retired option\<close>

lemma versionedFilesMessage_names: "hasSubstring n (versionedFilesMessage n)"
proof -
  have "\<exists>pre post. versionedFilesMessage n = pre @ n @ post"
    unfolding versionedFilesMessage_def by (metis append.assoc)
  then show ?thesis by (simp add: hasSubstring_iff)
qed

text \<open>
  Claim C7, as stated, fails for a group that declares \<^verbatim>\<open>versionedFiles\<close> behind
  another one that does: both \<^verbatim>\<open>old\<close> and \<^verbatim>\<open>legacy\<close> declare the option, and
  the error names \<^verbatim>\<open>old\<close> only.
\<close>

theorem versionedFiles_counterexample:
  "1 \<in> set (orEmpty (cfgAssetGroups exampleTwoRetiredConfig))
   \<and> declaresVersionedFiles (cfgObjects exampleTwoRetiredConfig 1)
   \<and> agName (cfgObjects exampleTwoRetiredConfig 1) = ''legacy''
   \<and> process 0 0 specGlobToRegex specRegExpValid specRegexTest exampleDurations
        (exampleGenerator [''/vendor.js'', ''/readme.txt'', ''/main.js'']) exampleTwoRetiredConfig
      = Inl (GeneratorError (versionedFilesMessage ''old''))
   \<and> \<not> hasSubstring ''legacy'' (versionedFilesMessage ''old'')"
proof -
  have "\<not> hasSubstring ''legacy'' (versionedFilesMessage ''old'')"
    by (simp add: versionedFilesMessage_def)
  moreover have "process 0 0 specGlobToRegex specRegExpValid specRegexTest exampleDurations
        (exampleGenerator [''/vendor.js'', ''/readme.txt'', ''/main.js'']) exampleTwoRetiredConfig
      = Inl (GeneratorError (versionedFilesMessage ''old''))"
    by (simp add: exampleTwoRetiredConfig_def exampleConfigOf_def exampleObjects_def
        exampleGroup_def exampleGenerator_def process_def processAssetGroups_def orEmpty_def Let_def)
  ultimately show ?thesis
    by (simp add: exampleTwoRetiredConfig_def exampleConfigOf_def exampleObjects_def
        exampleGroup_def orEmpty_def)
qed

text \<open>
  Claim C7, amended (retired-field rejection). When an asset group of the configuration
  declares \<^verbatim>\<open>versionedFiles\<close>, \<^const>\<open>process\<close> returns no manifest; and when the
  files are listed and the file globs of the groups in front of the first such group
  compile to regular expressions, it fails with the generator's own error, whose message
  contains the name of the first such group in the order of the configuration (that
  group, when it is the only one).
\<close>

theorem versionedFiles_rejected:
  assumes "r \<in> set (orEmpty (cfgAssetGroups cfg))"
    and "declaresVersionedFiles (cfgObjects cfg r)"
  shows "\<exists>r0. find (\<lambda>x. declaresVersionedFiles (cfgObjects cfg x)) (orEmpty (cfgAssetGroups cfg)) = Some r0
     \<and> ((\<forall>x\<in>set (orEmpty (cfgAssetGroups cfg)). declaresVersionedFiles (cfgObjects cfg x) \<longrightarrow> x = r)
          \<longrightarrow> r0 = r)
     \<and> (\<forall>m. process now first G V T P this cfg \<noteq> Inr m)
     \<and> (\<forall>allFiles. fsList (fs this) = Inr allFiles
           \<and> (\<forall>x\<in>set (takeWhile (\<lambda>x. \<not> declaresVersionedFiles (cfgObjects cfg x))
                          (orEmpty (cfgAssetGroups cfg))).
                 groupCompiles G V (cfgObjects cfg x)) \<longrightarrow>
           process now first G V T P this cfg
             = Inl (GeneratorError (versionedFilesMessage (agName (cfgObjects cfg r0)))))
     \<and> hasSubstring (agName (cfgObjects cfg r0)) (versionedFilesMessage (agName (cfgObjects cfg r0)))"
proof -
  let ?refs = "orEmpty (cfgAssetGroups cfg)"
  let ?D = "\<lambda>x. declaresVersionedFiles (cfgObjects cfg x)"
  from assms obtain r0 where r0: "find ?D ?refs = Some r0"
    by (cases "find ?D ?refs") (auto simp: find_None_iff)
  then have rin: "r0 \<in> set ?refs" "?D r0"
    by (auto simp: find_Some_iff)
  from find_Some_split [OF r0] obtain post where
    split: "?refs = takeWhile (\<lambda>y. \<not> ?D y) ?refs @ r0 # post" by blast
  have none: "process now first G V T P this cfg \<noteq> Inr m" for m
  proof
    assume "process now first G V T P this cfg = Inr m"
    then have "\<forall>x\<in>set ?refs. \<not> ?D x \<and> groupCompiles G V (cfgObjects cfg x)"
      by (rule process_Inr)
    with rin show False by blast
  qed
  have err: "process now first G V T P this cfg
       = Inl (GeneratorError (versionedFilesMessage (agName (cfgObjects cfg r0))))"
    if l: "fsList (fs this) = Inr allFiles"
      and c: "\<forall>x\<in>set (takeWhile (\<lambda>x. \<not> ?D x) ?refs). groupCompiles G V (cfgObjects cfg x)"
    for allFiles
  proof -
    have pre: "\<forall>x\<in>set (takeWhile (\<lambda>x. \<not> ?D x) ?refs).
        \<not> ?D x \<and> groupCompiles G V (cfgObjects cfg x)"
      using c by (auto dest: set_takeWhileD)
    have "assignFiles G V T (cfgObjects cfg) allFiles ({}, [])
        (takeWhile (\<lambda>y. \<not> ?D y) ?refs @ r0 # post)
      = Inl (GeneratorError (versionedFilesMessage (agName (cfgObjects cfg r0))))"
      by (rule assignFiles_declared [OF pre rin(2)])
    with split have "assignFiles G V T (cfgObjects cfg) allFiles ({}, []) ?refs
      = Inl (GeneratorError (versionedFilesMessage (agName (cfgObjects cfg r0))))"
      by simp
    with l show ?thesis by (simp add: process_def processAssetGroups_def)
  qed
  from r0 rin none err versionedFilesMessage_names [of "agName (cfgObjects cfg r0)"]
  show ?thesis by blast
qed

theorem versionedFiles_rejected_witness:
  "1 \<in> set (orEmpty (cfgAssetGroups exampleRetiredConfig))
   \<and> declaresVersionedFiles (cfgObjects exampleRetiredConfig 1)
   \<and> agName (cfgObjects exampleRetiredConfig 1) = ''legacy''
   \<and> specRegExpValid (regex (globPattern specGlobToRegex ''/*.js''))
   \<and> process 0 0 specGlobToRegex specRegExpValid specRegexTest exampleDurations
        (exampleGenerator [''/vendor.js'', ''/readme.txt'', ''/main.js'']) exampleRetiredConfig
      = Inl (GeneratorError (versionedFilesMessage ''legacy''))"
proof -
  let ?cfg = exampleRetiredConfig
  let ?D = "\<lambda>x. declaresVersionedFiles (cfgObjects ?cfg x)"
  have refs: "orEmpty (cfgAssetGroups ?cfg) = [0, 1]"
    by (simp add: exampleRetiredConfig_def exampleConfigOf_def orEmpty_def)
  have m: "1 \<in> set (orEmpty (cfgAssetGroups ?cfg))" by (simp add: refs)
  have d1: "?D 1" and d0: "\<not> ?D 0"
    by (simp_all add: exampleRetiredConfig_def exampleConfigOf_def exampleObjects_def exampleGroup_def)
  have n: "agName (cfgObjects ?cfg 1) = ''legacy''"
    by (simp add: exampleRetiredConfig_def exampleConfigOf_def exampleObjects_def exampleGroup_def)
  have c: "groupCompiles specGlobToRegex specRegExpValid (cfgObjects ?cfg 0)"
    by (simp add: exampleRetiredConfig_def exampleConfigOf_def exampleObjects_def exampleGroup_def
        orEmpty_def globPattern_def specGlobToRegex_def specRegExpValid_def startsWith_def
        endsWith_def)
  have f: "find ?D (orEmpty (cfgAssetGroups ?cfg)) = Some 1"
    unfolding refs using d0 d1 by simp
  have tw: "takeWhile (\<lambda>x. \<not> ?D x) (orEmpty (cfgAssetGroups ?cfg)) = [0]"
    unfolding refs using d0 d1 by simp
  from versionedFiles_rejected [OF m d1, of 0 0 specGlobToRegex specRegExpValid specRegexTest
      exampleDurations "exampleGenerator [''/vendor.js'', ''/readme.txt'', ''/main.js'']"]
  obtain r0 where r0: "find ?D (orEmpty (cfgAssetGroups ?cfg)) = Some r0"
    and e: "\<forall>allFiles. fsList (fs (exampleGenerator [''/vendor.js'', ''/readme.txt'', ''/main.js''])) = Inr allFiles
           \<and> (\<forall>x\<in>set (takeWhile (\<lambda>x. \<not> ?D x) (orEmpty (cfgAssetGroups ?cfg))).
                 groupCompiles specGlobToRegex specRegExpValid (cfgObjects ?cfg x)) \<longrightarrow>
           process 0 0 specGlobToRegex specRegExpValid specRegexTest exampleDurations
             (exampleGenerator [''/vendor.js'', ''/readme.txt'', ''/main.js'']) ?cfg
           = Inl (GeneratorError (versionedFilesMessage (agName (cfgObjects ?cfg r0))))"
    by blast
  from r0 f have r01: "r0 = 1" by simp
  have pre: "\<forall>x\<in>set (takeWhile (\<lambda>x. \<not> ?D x) (orEmpty (cfgAssetGroups ?cfg))).
                 groupCompiles specGlobToRegex specRegExpValid (cfgObjects ?cfg x)"
    unfolding tw using c by simp
  from e example_listing pre have "process 0 0 specGlobToRegex specRegExpValid specRegexTest exampleDurations
        (exampleGenerator [''/vendor.js'', ''/readme.txt'', ''/main.js'']) ?cfg
      = Inl (GeneratorError (versionedFilesMessage (agName (cfgObjects ?cfg r0))))"
    by blast
  with r01 n have "process 0 0 specGlobToRegex specRegExpValid specRegexTest exampleDurations
        (exampleGenerator [''/vendor.js'', ''/readme.txt'', ''/main.js'']) ?cfg
      = Inl (GeneratorError (versionedFilesMessage ''legacy''))"
    by simp
  moreover have "specRegExpValid (regex (globPattern specGlobToRegex ''/*.js''))"
    by (simp add: globPattern_def specGlobToRegex_def specRegExpValid_def startsWith_def
        endsWith_def)
  ultimately show ?thesis using m d1 n by blast
qed

subsection \<open>Groups without file globs\<close>

text \<open>
  Claim C10 (empty glob list). The matcher of the empty glob list is built without
  failure and accepts no candidate; hence in every manifest that \<^const>\<open>process\<close>
  returns, the group emitted for a configured group whose \<^verbatim>\<open>files\<close> are absent or
  empty has no urls. The emitted groups are those of the keys of the map, which are the
  listed group objects without repetition, and the listed ones in their order when no
  object is listed twice.
\<close>

theorem empty_files_no_urls:
  "(\<exists>matcher. globListToMatcher G V T [] = Inr matcher \<and> (\<forall>file. \<not> matcher file))
   \<and> (process now first G V T P this cfg = Inr m \<longrightarrow>
      (\<exists>keys. distinct keys \<and> set keys = set (orEmpty (cfgAssetGroups cfg))
         \<and> (distinct (orEmpty (cfgAssetGroups cfg)) \<longrightarrow> keys = orEmpty (cfgAssetGroups cfg))
         \<and> length (assetGroups m) = length keys
         \<and> (\<forall>i<length keys.
              name (assetGroups m ! i) = agName (cfgObjects cfg (keys ! i))
              \<and> (orEmpty (files (resources (cfgObjects cfg (keys ! i)))) = [] \<longrightarrow>
                   urls (assetGroups m ! i) = []))))"
proof -
  have base: "\<exists>matcher. globListToMatcher G V T [] = Inr matcher \<and> (\<forall>file. \<not> matcher file)"
    by (simp add: globListToMatcher_def matches_def)
  have grp: "\<exists>keys. distinct keys \<and> set keys = set (orEmpty (cfgAssetGroups cfg))
         \<and> (distinct (orEmpty (cfgAssetGroups cfg)) \<longrightarrow> keys = orEmpty (cfgAssetGroups cfg))
         \<and> length (assetGroups m) = length keys
         \<and> (\<forall>i<length keys.
              name (assetGroups m ! i) = agName (cfgObjects cfg (keys ! i))
              \<and> (orEmpty (files (resources (cfgObjects cfg (keys ! i)))) = [] \<longrightarrow>
                   urls (assetGroups m ! i) = []))"
    if run: "process now first G V T P this cfg = Inr m"
  proof -
    let ?refs = "orEmpty (cfgAssetGroups cfg)"
    let ?gs = "map (cfgObjects cfg) ?refs"
    from run obtain allFiles fpg where
      l: "fsList (fs this) = Inr allFiles" and
      fpg: "fpg = AList.updates ?refs (perGroup G T allFiles {} ?gs) []" and
      ag: "assetGroups m = map (emitAssetGroup G (baseHref this) (cfgObjects cfg)) fpg"
      by (rule process_Inr)
    let ?ms = "perGroup G T allFiles {} ?gs"
    let ?keys = "map fst fpg"
    have len: "length ?refs = length ?ms" by (simp add: length_perGroup)
    have d: "distinct ?keys" unfolding fpg by (rule distinct_updates) simp
    have s: "set ?keys = set ?refs"
      using dom_updates [OF len, of "[]"] by (simp add: fpg)
    have e: "?keys = ?refs" if "distinct ?refs"
      using updates_distinct_fresh [OF that len, of "[]"] len by (simp add: fpg)
    have la: "length (assetGroups m) = length ?keys" by (simp add: ag)
    have each: "name (assetGroups m ! i) = agName (cfgObjects cfg (?keys ! i))
              \<and> (orEmpty (files (resources (cfgObjects cfg (?keys ! i)))) = [] \<longrightarrow>
                   urls (assetGroups m ! i) = [])"
      if i: "i < length ?keys" for i
    proof -
      obtain k l where kl: "fpg ! i = (k, l)" by (cases "fpg ! i")
      from i kl have k: "?keys ! i = k" by simp
      from i kl have a: "assetGroups m ! i = emitAssetGroup G (baseHref this) (cfgObjects cfg) (k, l)"
        by (simp add: ag)
      have empty: "l = []" if em: "orEmpty (files (resources (cfgObjects cfg k))) = []"
      proof -
        from i kl have "(k, l) \<in> set fpg" by (metis length_map nth_mem)
        with set_updates_subset [of ?refs ?ms "[]"] have "(k, l) \<in> set (zip ?refs ?ms)"
          unfolding fpg by auto
        then obtain j where j: "j < length ?refs" "?refs ! j = k" "?ms ! j = l"
          by (auto simp: in_set_zip)
        from j(1) have jg: "j < length ?gs" by simp
        from j(1,2) have "?gs ! j = cfgObjects cfg k" by simp
        with set_perGroup_nth [OF jg, of G T allFiles "{}"] em
        have "set (?ms ! j) = {}" by (simp add: matches_def)
        with j(3) show ?thesis by simp
      qed
      from a k empty show ?thesis
        by (simp add: name_emitAssetGroup urls_emitAssetGroup)
    qed
    from d s e la each show ?thesis by blast
  qed
  from base grp show ?thesis by blast
qed

theorem empty_files_no_urls_witness:
  "process 0 0 specGlobToRegex specRegExpValid specRegexTest exampleDurations
        (exampleGenerator [''/vendor.js'', ''/readme.txt'', ''/main.js'']) exampleConfig
      = Inr (exampleManifest 0)
   \<and> distinct (orEmpty (cfgAssetGroups exampleConfig))
   \<and> orEmpty (files (resources (cfgObjects exampleConfig (orEmpty (cfgAssetGroups exampleConfig) ! 3)))) = []
   \<and> name (assetGroups (exampleManifest 0) ! 3) = ''none''
   \<and> urls (assetGroups (exampleManifest 0) ! 3) = []"
proof -
  let ?refs = "orEmpty (cfgAssetGroups exampleConfig)"
  have dist: "distinct ?refs" by (simp add: example_refs)
  have len: "3 < length ?refs" by (simp add: example_refs)
  have e: "orEmpty (files (resources (cfgObjects exampleConfig (?refs ! 3)))) = []"
    by (simp add: example_refs) (simp add: example_defs orEmpty_def)
  have n: "agName (cfgObjects exampleConfig (?refs ! 3)) = ''none''"
    by (simp add: example_refs) (simp add: example_defs)
  from empty_files_no_urls [of specGlobToRegex specRegExpValid specRegexTest 0 0 exampleDurations
      "exampleGenerator [''/vendor.js'', ''/readme.txt'', ''/main.js'']" exampleConfig
      "exampleManifest 0"] example_run [of 0 0]
  obtain keys where k: "distinct ?refs \<longrightarrow> keys = ?refs"
    and each: "\<forall>i<length keys.
              name (assetGroups (exampleManifest 0) ! i) = agName (cfgObjects exampleConfig (keys ! i))
              \<and> (orEmpty (files (resources (cfgObjects exampleConfig (keys ! i)))) = [] \<longrightarrow>
                   urls (assetGroups (exampleManifest 0) ! i) = [])"
    by blast
  from k dist have "keys = ?refs" by simp
  with each len e n have
    "name (assetGroups (exampleManifest 0) ! 3) = ''none''
     \<and> urls (assetGroups (exampleManifest 0) ! 3) = []"
    by auto
  with example_run [of 0 0] dist e show ?thesis by blast
qed

end
